theory Spec2Isabelle
  imports Complex_Main "HOL-Library.AList" "HOL-Library.Multiset" "HOL-Library.Product_Lexorder"
begin

section \<open>DocuSearch: tokenizer, indexer, query engine, LRU cache and search service\<close>

text \<open>
  A shallow embedding of the Python sources under \<^verbatim>\<open>backend/index\<close> and
  \<^verbatim>\<open>backend/service\<close>.

  Conventions of the embedding.
  \<^item> Python \<^verbatim>\<open>int\<close> is \<^typ>\<open>int\<close>; Python \<^verbatim>\<open>float\<close> is idealised as
    \<^typ>\<open>real\<close> (\<^verbatim>\<open>math.log\<close> is \<^const>\<open>ln\<close>, \<^verbatim>\<open>math.sqrt\<close> is
    \<^const>\<open>sqrt\<close>), so rounding, overflow and NaN are outside the model.
  \<^item> Python \<^verbatim>\<open>str\<close> is \<^typ>\<open>string\<close>: the text is read as a sequence of
    characters with codes below 256. Case folding is the ASCII one, white space
    is what \<^verbatim>\<open>str.isspace\<close> accepts among these characters; any character
    outside \<^verbatim>\<open>[a-z0-9]\<close> after lowering is a separator for the tokenizer.
  \<^item> A Python \<^verbatim>\<open>dict\<close> is an association list in insertion order with pairwise
    distinct keys: \<^const>\<open>map_of\<close> looks a key up, \<^const>\<open>AList.update\<close> assigns
    (in place for a key that is present, at the end for a new key).
  \<^item> An exception is a value of \<open>py_error\<close>, and a function that may raise
    returns \<open>py_error + 'a\<close>.
\<close>

subsection \<open>Python exceptions\<close>

datatype py_error = ValueError | KeyError | AttributeError | ZeroDivisionError | FileNotFoundError

subsection \<open>\<^verbatim>\<open>backend/index/preprocess.py\<close>\<close>

text \<open>The character class \<^verbatim>\<open>[a-z0-9]\<close> of \<^verbatim>\<open>_TOKEN_RE\<close>.\<close>

definition is_token_char :: "char \<Rightarrow> bool" where
  "is_token_char c =
     (let n = (of_char c :: nat) in (97 \<le> n \<and> n \<le> 122) \<or> (48 \<le> n \<and> n \<le> 57))"

text \<open>
  \<^verbatim>\<open>str.lower\<close> on one character: the codes 65..90 (\<^verbatim>\<open>A-Z\<close>) move up by 32, which
  is setting bit 5 of the code; every other character is left as it is. (Python lowers
  a non-ASCII letter to non-ASCII text, which the tokenizer then treats as a separator
  like the letter itself; the two exceptions, U+0130 and U+212A, whose lowering contains
  an ASCII letter, are outside the model.)
\<close>

definition lower_char :: "char \<Rightarrow> char" where
  "lower_char c =
     (let n = (of_char c :: nat) in
      if 65 \<le> n \<and> n \<le> 90
      then (case c of Char b0 b1 b2 b3 b4 b5 b6 b7 \<Rightarrow> Char b0 b1 b2 b3 b4 True b6 b7)
      else c)"

definition lower :: "string \<Rightarrow> string" where
  "lower s = map lower_char s"

text \<open>
  \<^verbatim>\<open>str.isspace\<close> on one character of a code below 256: tab, line feed, vertical tab,
  form feed, carriage return, the four separators 28..31, the space, the next-line
  control 133 (U+0085) and the no-break space 160 (U+00A0).
\<close>

definition isspace :: "char \<Rightarrow> bool" where
  "isspace c =
     (let n = (of_char c :: nat)
      in (9 \<le> n \<and> n \<le> 13) \<or> (28 \<le> n \<and> n \<le> 32) \<or> n = 133 \<or> n = 160)"

text \<open>
  \<^verbatim>\<open>_TOKEN_RE.sub(" ", text)\<close> with \<^verbatim>\<open>_TOKEN_RE = re.compile(r"[^a-z0-9]+")\<close>:
  every maximal run of characters outside the class becomes one space.
\<close>

function TOKEN_RE_sub :: "string \<Rightarrow> string" where
  "TOKEN_RE_sub [] = []"
| "TOKEN_RE_sub (c # cs) =
     (if is_token_char c then c # TOKEN_RE_sub cs
      else CHR '' '' # TOKEN_RE_sub (dropWhile (\<lambda>x. \<not> is_token_char x) cs))"
  by pat_completeness auto
termination
  by (relation "measure length") (auto simp: less_Suc_eq_le length_dropWhile_le)

text \<open>\<^verbatim>\<open>str.split()\<close> without argument: the maximal runs of non-space characters.\<close>

function split :: "string \<Rightarrow> string list" where
  "split s =
     (case dropWhile isspace s of
        [] \<Rightarrow> []
      | c # cs \<Rightarrow>
          (c # takeWhile (\<lambda>x. \<not> isspace x) cs) # split (dropWhile (\<lambda>x. \<not> isspace x) cs))"
  by pat_completeness auto
termination
proof (relation "measure length", simp, goal_cases)
  case (1 s c cs)
  have "length (dropWhile (\<lambda>x. \<not> isspace x) cs) \<le> length cs"
    by (rule length_dropWhile_le)
  moreover have "length (c # cs) \<le> length s"
    using 1 length_dropWhile_le [of isspace s] by simp
  ultimately show ?case by simp
qed

declare split.simps [simp del]

text \<open>\<^verbatim>\<open>str.strip()\<close> without argument.\<close>

definition strip :: "string \<Rightarrow> string" where
  "strip s = rev (dropWhile isspace (rev (dropWhile isspace s)))"

text \<open>\<^verbatim>\<open>sep.join(parts)\<close>.\<close>

fun join :: "string \<Rightarrow> string list \<Rightarrow> string" where
  "join sep [] = []"
| "join sep [t] = t"
| "join sep (t # u # ts) = t @ sep @ join sep (u # ts)"

definition STOPWORDS :: "string set" where
  "STOPWORDS = {''a'', ''an'', ''the'', ''and'', ''or'', ''but'', ''if'', ''then'', ''else'',
     ''for'', ''to'', ''of'', ''in'', ''on'', ''at'', ''by'', ''with'', ''is'', ''are'', ''was'',
     ''were'', ''be'', ''been'', ''being'', ''it'', ''its'', ''as'', ''that'', ''this'', ''these'',
     ''those'', ''not'', ''no'', ''do'', ''does'', ''did'', ''how'', ''why'', ''what'', ''which'',
     ''who'', ''whom'', ''from''}"

text \<open>
  \<^verbatim>\<open>preprocess(text, stopwords=STOPWORDS)\<close>; \<open>preprocess\<close> is the call with the
  default argument, the only one the repository makes.
\<close>

definition preprocess_with :: "string \<Rightarrow> string set \<Rightarrow> string list" where
  "preprocess_with txt stopwords =
     (if txt = [] then []
      else filter (\<lambda>t. t \<noteq> [] \<and> t \<notin> stopwords) (split (TOKEN_RE_sub (lower txt))))"

definition preprocess :: "string \<Rightarrow> string list" where
  "preprocess txt = preprocess_with txt STOPWORDS"

text \<open>Well-formed terms: non-empty words over \<^verbatim>\<open>[a-z0-9]\<close>.\<close>

definition token_list :: "string list \<Rightarrow> bool" where
  "token_list ts = (\<forall>t\<in>set ts. t \<noteq> [] \<and> (\<forall>c\<in>set t. is_token_char c))"

subsection \<open>The index\<close>

text \<open>A postings entry \<^verbatim>\<open>{"doc_id": ..., "tf": ...}\<close>.\<close>

record posting =
  doc_id :: int
  tf :: int

text \<open>
  The dictionaries keyed by document id (\<^verbatim>\<open>doc_id_map\<close>, \<^verbatim>\<open>forward_index\<close>,
  \<^verbatim>\<open>doc_norm\<close>) have \<^verbatim>\<open>int\<close> keys when the indexer builds them and
  \<^verbatim>\<open>str\<close> keys when they are read back from JSON, and a Python \<^verbatim>\<open>int\<close> never
  equals a \<^verbatim>\<open>str\<close>; the key type keeps the two apart.
\<close>

datatype dockey = IntKey int | StrKey string

text \<open>
  The dictionary \<^verbatim>\<open>build_index\<close> returns, one field per key. Where \<^verbatim>\<open>search\<close>
  reads a key with \<^verbatim>\<open>index.get(key, {})\<close>, a missing key is the empty dictionary in
  the field.
\<close>

record index =
  doc_id_map :: "(dockey \<times> string) list"
  forward_index :: "(dockey \<times> string) list"
  postings :: "(string \<times> posting list) list"
  df :: "(string \<times> int) list"
  idf :: "(string \<times> real) list"
  N :: int
  doc_norm :: "(dockey \<times> real) list"

text \<open>\<^verbatim>\<open>d.get(k, default)\<close>.\<close>

definition get_default :: "('k \<times> 'v) list \<Rightarrow> 'k \<Rightarrow> 'v \<Rightarrow> 'v" where
  "get_default d k dflt = (case map_of d k of None \<Rightarrow> dflt | Some v \<Rightarrow> v)"

text \<open>\<^verbatim>\<open>math.log(x)\<close> and \<^verbatim>\<open>math.sqrt(x)\<close> raise \<^verbatim>\<open>ValueError\<close> outside their domain.\<close>

definition math_log :: "real \<Rightarrow> py_error + real" where
  "math_log x = (if x \<le> 0 then Inl ValueError else Inr (ln x))"

definition math_sqrt :: "real \<Rightarrow> py_error + real" where
  "math_sqrt x = (if x < 0 then Inl ValueError else Inr (sqrt x))"

subsection \<open>\<^verbatim>\<open>backend/index/search.py\<close>\<close>

text \<open>
  The loop of \<^verbatim>\<open>_and_intersect\<close> over \<^verbatim>\<open>posting_lists[1:]\<close>, with its early
  \<^verbatim>\<open>return []\<close>, and the final \<^verbatim>\<open>sorted(common)\<close>.
\<close>

fun intersect_loop :: "int set \<Rightarrow> posting list list \<Rightarrow> int list" where
  "intersect_loop common [] = sorted_list_of_set common"
| "intersect_loop common (plist # rest) =
     (let dset = set (map doc_id plist); common' = common \<inter> dset
      in if common' = {} then [] else intersect_loop common' rest)"

definition and_intersect :: "posting list list \<Rightarrow> int list" where
  "and_intersect posting_lists =
     (if posting_lists = [] then []
      else (case sort_key length posting_lists of
              [] \<Rightarrow> []
            | base # rest \<Rightarrow> intersect_loop (set (map doc_id base)) rest))"

text \<open>
  The first loop of \<^verbatim>\<open>search\<close>: the postings list of every token, or \<open>None\<close>
  for the early \<^verbatim>\<open>return []\<close> when a list is missing or empty.
\<close>

fun collect_lists :: "(string \<times> posting list) list \<Rightarrow> string list \<Rightarrow> posting list list option" where
  "collect_lists post [] = Some []"
| "collect_lists post (t # ts) =
     (case map_of post t of
        None \<Rightarrow> None
      | Some plist \<Rightarrow>
          if plist = [] then None
          else (case collect_lists post ts of None \<Rightarrow> None | Some pls \<Rightarrow> Some (plist # pls)))"

text \<open>The inner dictionary of \<^verbatim>\<open>tf_map\<close>: a later entry for a document overwrites an earlier one.\<close>

definition tf_dict :: "posting list \<Rightarrow> (int \<rightharpoonup> int)" where
  "tf_dict plist = fold (\<lambda>e d. d(doc_id e \<mapsto> tf e)) plist Map.empty"

text \<open>
  \<^verbatim>\<open>tf_map\<close>, built for every token of \<^verbatim>\<open>set(tokens)\<close>; \<^verbatim>\<open>postings[t]\<close> raises
  \<^verbatim>\<open>KeyError\<close> for a token with no entry.
\<close>

definition build_tf_map ::
  "(string \<times> posting list) list \<Rightarrow> string list \<Rightarrow> py_error + (string \<times> (int \<rightharpoonup> int)) list" where
  "build_tf_map post ts =
     (if \<forall>t\<in>set ts. map_of post t \<noteq> None
      then Inr (map (\<lambda>t. (t, tf_dict (the (map_of post t)))) ts)
      else Inl KeyError)"

text \<open>
  The inner loop of the scoring: \<^verbatim>\<open>s\<close> summed over the distinct tokens, reset to
  \<^verbatim>\<open>0.0\<close> with a \<^verbatim>\<open>break\<close> at a token whose frequency is missing or zero.
\<close>

fun score_terms ::
  "(string \<times> (int \<rightharpoonup> int)) list \<Rightarrow> (string \<times> real) list \<Rightarrow> int \<Rightarrow> string list \<Rightarrow> real
     \<Rightarrow> py_error + real" where
  "score_terms tf_map idfs d [] s = Inr s"
| "score_terms tf_map idfs d (t # ts) s =
     (case map_of tf_map t of
        None \<Rightarrow> Inl KeyError
      | Some m \<Rightarrow>
          (case m d of
             None \<Rightarrow> Inr 0
           | Some f \<Rightarrow>
               if f = 0 then Inr 0
               else (case math_log (real_of_int f) of
                       Inl e \<Rightarrow> Inl e
                     | Inr l \<Rightarrow>
                         let w_tf = 1 + l; w_idf = get_default idfs t 0
                         in score_terms tf_map idfs d ts (s + w_tf * w_idf))))"

text \<open>The body of the loop over \<^verbatim>\<open>candidate_docs\<close>: the score of one document.\<close>

definition score_doc ::
  "(string \<times> (int \<rightharpoonup> int)) list \<Rightarrow> (string \<times> real) list \<Rightarrow> (dockey \<times> real) list
     \<Rightarrow> string list \<Rightarrow> int \<Rightarrow> py_error + real" where
  "score_doc tf_map idfs norms ts d =
     (case score_terms tf_map idfs d ts 0 of
        Inl e \<Rightarrow> Inl e
      | Inr s \<Rightarrow>
          let norm = get_default norms (IntKey d) 1
          in Inr (if norm > 0 then s / norm else s))"

text \<open>
  The dictionary \<^verbatim>\<open>scores\<close>: one item per candidate document, in the order of
  \<^verbatim>\<open>candidate_docs\<close> (whose elements are distinct).
\<close>

fun score_all ::
  "(string \<times> (int \<rightharpoonup> int)) list \<Rightarrow> (string \<times> real) list \<Rightarrow> (dockey \<times> real) list
     \<Rightarrow> string list \<Rightarrow> int list \<Rightarrow> py_error + (int \<times> real) list" where
  "score_all tf_map idfs norms ts [] = Inr []"
| "score_all tf_map idfs norms ts (d # ds) =
     (case score_doc tf_map idfs norms ts d of
        Inl e \<Rightarrow> Inl e
      | Inr s \<Rightarrow>
          (case score_all tf_map idfs norms ts ds of
             Inl e \<Rightarrow> Inl e
           | Inr rest \<Rightarrow> Inr ((d, s) # rest)))"

text \<open>
  \<^verbatim>\<open>search(query, index)\<close>. The iteration over \<^verbatim>\<open>set(tokens)\<close> visits each
  distinct token once, here in the order of \<^const>\<open>remdups\<close>. The final
  \<^verbatim>\<open>sorted(..., key=lambda x: (-x[1], x[0]))\<close> compares the keys lexicographically.
\<close>

definition search :: "string \<Rightarrow> index \<Rightarrow> py_error + (int \<times> real) list" where
  "search query idx =
     (let tokens = preprocess query in
      if tokens = [] then Inr []
      else (case collect_lists (postings idx) tokens of
              None \<Rightarrow> Inr []
            | Some pls \<Rightarrow>
                let candidate_docs = and_intersect pls in
                if candidate_docs = [] then Inr []
                else (case build_tf_map (postings idx) (remdups tokens) of
                        Inl e \<Rightarrow> Inl e
                      | Inr tf_map \<Rightarrow>
                          (case score_all tf_map (idf idx) (doc_norm idx) (remdups tokens)
                                  candidate_docs of
                             Inl e \<Rightarrow> Inl e
                           | Inr scores \<Rightarrow> Inr (sort_key (\<lambda>(d, s). (- s, d)) scores)))))"

text \<open>The document ids of a term's postings list (none for a term without an entry).\<close>

definition term_docs :: "index \<Rightarrow> string \<Rightarrow> int set" where
  "term_docs idx t = (case map_of (postings idx) t of None \<Rightarrow> {} | Some plist \<Rightarrow> doc_id ` set plist)"

text \<open>
  The documents that match a list of query tokens: those in the postings list of every
  token; none for the empty list (\<^verbatim>\<open>_and_intersect([])\<close> is \<^verbatim>\<open>[]\<close>).
\<close>

definition matching_docs :: "index \<Rightarrow> string list \<Rightarrow> int set" where
  "matching_docs idx tokens = (if tokens = [] then {} else (\<Inter>t\<in>set tokens. term_docs idx t))"

text \<open>The order of a ranked result: score descending, equal scores by ascending document id.\<close>

definition ranked_before :: "int \<times> real \<Rightarrow> int \<times> real \<Rightarrow> bool" where
  "ranked_before x y = (snd y < snd x \<or> (snd x = snd y \<and> fst x < fst y))"

subsection \<open>\<^verbatim>\<open>backend/index/indexer.py\<close>\<close>

text \<open>
  \<^verbatim>\<open>collections.Counter(tokens)\<close>: the number of occurrences of every token, the
  keys in the order of their first occurrence.
\<close>

definition Counter :: "string list \<Rightarrow> (string \<times> int) list" where
  "Counter tokens = fold (\<lambda>t c. AList.update t (get_default c t 0 + 1) c) tokens []"

text \<open>The state of the main loop of \<^verbatim>\<open>build_index\<close>.\<close>

record build_state =
  st_doc_id_map :: "(dockey \<times> string) list"
  st_forward_index :: "(dockey \<times> string) list"
  st_postings :: "(string \<times> posting list) list"
  st_df :: "(string \<times> int) list"
  st_doc_id :: int

definition init_state :: build_state where
  "init_state = \<lparr>st_doc_id_map = [], st_forward_index = [], st_postings = [], st_df = [],
     st_doc_id = 0\<rparr>"

text \<open>
  The loop over \<^verbatim>\<open>counts.items()\<close>: \<^verbatim>\<open>postings[token].append(...)\<close> and
  \<^verbatim>\<open>df[token] += 1\<close> on the two \<^verbatim>\<open>defaultdict\<close>s.
\<close>

definition add_count ::
  "int \<Rightarrow> string \<times> int \<Rightarrow> (string \<times> posting list) list \<times> (string \<times> int) list
     \<Rightarrow> (string \<times> posting list) list \<times> (string \<times> int) list" where
  "add_count d = (\<lambda>(token, f) (post, dfs).
     (AList.update token (get_default post token [] @ [\<lparr>doc_id = d, tf = f\<rparr>]) post,
      AList.update token (get_default dfs token 0 + 1) dfs))"

definition add_counts ::
  "int \<Rightarrow> (string \<times> int) list \<Rightarrow> (string \<times> posting list) list \<times> (string \<times> int) list
     \<Rightarrow> (string \<times> posting list) list \<times> (string \<times> int) list" where
  "add_counts d counts pd = fold (add_count d) counts pd"

text \<open>
  One round of the main loop. The loop runs over the files of the directory in sorted
  order that carry an accepted extension; a file is given by its path and the outcome
  of the text extraction, \<open>None\<close> when the extractor raised (the file is skipped).
  The extractors themselves (PDF and DOCX parsing) are outside the embedding.
\<close>

definition index_document :: "string \<times> string option \<Rightarrow> build_state \<Rightarrow> build_state" where
  "index_document = (\<lambda>(file_path, extracted) st.
     (case extracted of
        None \<Rightarrow> st
      | Some raw \<Rightarrow>
          let txt = strip raw in
          if txt = [] then st
          else
            let d = st_doc_id st;
                tokens = preprocess txt;
                (post, dfs) =
                  (if tokens \<noteq> [] then add_counts d (Counter tokens) (st_postings st, st_df st)
                   else (st_postings st, st_df st))
            in \<lparr>st_doc_id_map = AList.update (IntKey d) file_path (st_doc_id_map st),
                st_forward_index = AList.update (IntKey d) txt (st_forward_index st),
                st_postings = post,
                st_df = dfs,
                st_doc_id = d + 1\<rparr>))"

text \<open>\<^verbatim>\<open>plist.sort(key=lambda x: x["doc_id"])\<close> on every postings list (a stable sort).\<close>

definition sort_postings :: "(string \<times> posting list) list \<Rightarrow> (string \<times> posting list) list" where
  "sort_postings post = map (\<lambda>(token, plist). (token, sort_key doc_id plist)) post"

text \<open>
  The loop \<^verbatim>\<open>idf[token] = math.log((N + 1) / (dfi + 1)) + 1.0\<close> over
  \<^verbatim>\<open>df.items()\<close>, with the exceptions of the division and of the logarithm.
\<close>

fun compute_idf ::
  "int \<Rightarrow> (string \<times> int) list \<Rightarrow> (string \<times> real) list \<Rightarrow> py_error + (string \<times> real) list" where
  "compute_idf n [] acc = Inr acc"
| "compute_idf n ((token, dfi) # rest) acc =
     (if dfi + 1 = 0 then Inl ZeroDivisionError
      else (case math_log (real_of_int (n + 1) / real_of_int (dfi + 1)) of
              Inl e \<Rightarrow> Inl e
            | Inr l \<Rightarrow> compute_idf n rest (AList.update token (l + 1) acc)))"

text \<open>
  The two nested loops that sum the squared weights into the \<^verbatim>\<open>defaultdict(float)\<close>
  \<^verbatim>\<open>doc_norm\<close>; \<^verbatim>\<open>idf[token]\<close> raises \<^verbatim>\<open>KeyError\<close> for a missing token.
\<close>

fun norm_entries ::
  "real \<Rightarrow> posting list \<Rightarrow> (dockey \<times> real) list \<Rightarrow> py_error + (dockey \<times> real) list" where
  "norm_entries w_idf [] dn = Inr dn"
| "norm_entries w_idf (e # es) dn =
     (case math_log (real_of_int (tf e)) of
        Inl err \<Rightarrow> Inl err
      | Inr l \<Rightarrow>
          let w_tf = 1 + l; k = IntKey (doc_id e)
          in norm_entries w_idf es (AList.update k (get_default dn k 0 + (w_tf * w_idf)\<^sup>2) dn))"

fun norm_postings ::
  "(string \<times> real) list \<Rightarrow> (string \<times> posting list) list \<Rightarrow> (dockey \<times> real) list
     \<Rightarrow> py_error + (dockey \<times> real) list" where
  "norm_postings idfs [] dn = Inr dn"
| "norm_postings idfs ((token, plist) # rest) dn =
     (case map_of idfs token of
        None \<Rightarrow> Inl KeyError
      | Some w_idf \<Rightarrow>
          (case norm_entries w_idf plist dn of
             Inl e \<Rightarrow> Inl e
           | Inr dn' \<Rightarrow> norm_postings idfs rest dn'))"

text \<open>The loop \<^verbatim>\<open>doc_norm[d] = math.sqrt(doc_norm[d])\<close> over \<^verbatim>\<open>list(doc_norm.keys())\<close>.\<close>

fun sqrt_norms :: "dockey list \<Rightarrow> (dockey \<times> real) list \<Rightarrow> py_error + (dockey \<times> real) list" where
  "sqrt_norms [] dn = Inr dn"
| "sqrt_norms (d # ds) dn =
     (case math_sqrt (get_default dn d 0) of
        Inl e \<Rightarrow> Inl e
      | Inr r \<Rightarrow> sqrt_norms ds (AList.update d r dn))"

definition build_index :: "(string \<times> string option) list \<Rightarrow> py_error + index" where
  "build_index files =
     (let st = fold index_document files init_state;
          post = sort_postings (st_postings st);
          n = int (length (st_doc_id_map st))
      in case compute_idf n (st_df st) [] of
           Inl e \<Rightarrow> Inl e
         | Inr idfs \<Rightarrow>
             (case norm_postings idfs post [] of
                Inl e \<Rightarrow> Inl e
              | Inr dn \<Rightarrow>
                  (case sqrt_norms (map fst dn) dn of
                     Inl e \<Rightarrow> Inl e
                   | Inr norms \<Rightarrow>
                       Inr \<lparr>doc_id_map = st_doc_id_map st,
                            forward_index = st_forward_index st,
                            postings = post,
                            df = st_df st,
                            idf = idfs,
                            N = n,
                            doc_norm = norms\<rparr>)))"

text \<open>
  The invariant of the main loop: the document ids handed out so far are
  \<open>0, \<dots>, st_doc_id - 1\<close>; the document frequency of a term is the length of its
  postings list; a postings list is strictly ascending in the document id, and each of
  its entries records how often the term occurs in the text of that document; every
  term of every indexed text has its entry.
\<close>

definition build_inv :: "build_state \<Rightarrow> bool" where
  "build_inv st \<longleftrightarrow>
     0 \<le> st_doc_id st \<and>
     distinct (map fst (st_doc_id_map st)) \<and>
     fst ` set (st_doc_id_map st) = IntKey ` {0..<st_doc_id st} \<and>
     distinct (map fst (st_forward_index st)) \<and>
     fst ` set (st_forward_index st) = IntKey ` {0..<st_doc_id st} \<and>
     distinct (map fst (st_postings st)) \<and>
     distinct (map fst (st_df st)) \<and>
     (\<forall>t. map_of (st_df st) t = map_option (\<lambda>plist. int (length plist)) (map_of (st_postings st) t)) \<and>
     (\<forall>t plist. map_of (st_postings st) t = Some plist \<longrightarrow>
        plist \<noteq> [] \<and> sorted_wrt (<) (map doc_id plist) \<and>
        (\<forall>e\<in>set plist. \<exists>txt. map_of (st_forward_index st) (IntKey (doc_id e)) = Some txt \<and>
           t \<in> set (preprocess txt) \<and> tf e = int (count_list (preprocess txt) t))) \<and>
     (\<forall>d txt t. map_of (st_forward_index st) (IntKey d) = Some txt \<longrightarrow> t \<in> set (preprocess txt) \<longrightarrow>
        d \<in> doc_id ` set (get_default (st_postings st) t []))"

text \<open>
  What the loop invariant leaves in the finished index, with the derived tables: the
  inverse document frequency of every term, and a positive norm for exactly the
  documents that occur in some postings list.
\<close>

definition index_inv :: "index \<Rightarrow> bool" where
  "index_inv idx \<longleftrightarrow>
     0 \<le> N idx \<and>
     distinct (map fst (doc_id_map idx)) \<and>
     fst ` set (doc_id_map idx) = IntKey ` {0..<N idx} \<and>
     distinct (map fst (forward_index idx)) \<and>
     fst ` set (forward_index idx) = IntKey ` {0..<N idx} \<and>
     distinct (map fst (postings idx)) \<and>
     distinct (map fst (df idx)) \<and>
     (\<forall>t. map_of (df idx) t = map_option (\<lambda>plist. int (length plist)) (map_of (postings idx) t)) \<and>
     (\<forall>t plist. map_of (postings idx) t = Some plist \<longrightarrow>
        plist \<noteq> [] \<and> sorted_wrt (<) (map doc_id plist) \<and>
        (\<forall>e\<in>set plist. \<exists>txt. map_of (forward_index idx) (IntKey (doc_id e)) = Some txt \<and>
           t \<in> set (preprocess txt) \<and> tf e = int (count_list (preprocess txt) t))) \<and>
     (\<forall>d txt t. map_of (forward_index idx) (IntKey d) = Some txt \<longrightarrow> t \<in> set (preprocess txt) \<longrightarrow>
        d \<in> doc_id ` set (get_default (postings idx) t [])) \<and>
     (\<forall>t dfi. map_of (df idx) t = Some dfi \<longrightarrow>
        dfi \<le> N idx \<and>
        map_of (idf idx) t = Some (ln (real_of_int (N idx + 1) / real_of_int (dfi + 1)) + 1)) \<and>
     distinct (map fst (doc_norm idx)) \<and>
     fst ` set (doc_norm idx) =
       (\<Union>(t, plist)\<in>set (postings idx). (\<lambda>e. IntKey (doc_id e)) ` set plist) \<and>
     (\<forall>k x. map_of (doc_norm idx) k = Some x \<longrightarrow> 0 < x)"

subsection \<open>The quantities of the scoring formula\<close>

text \<open>The term frequency the index records for a term in a document (0 when it records none).\<close>

definition term_frequency :: "index \<Rightarrow> string \<Rightarrow> int \<Rightarrow> int" where
  "term_frequency idx t d =
     (case map_of (postings idx) t of
        None \<Rightarrow> 0
      | Some plist \<Rightarrow> get_default (map (\<lambda>e. (doc_id e, tf e)) plist) d 0)"

text \<open>\<open>ln ((N + 1) / (documentFrequency + 1)) + 1\<close> from the index's \<open>N\<close> and \<open>df\<close>.\<close>

definition inverse_document_frequency :: "index \<Rightarrow> string \<Rightarrow> real" where
  "inverse_document_frequency idx t =
     ln (real_of_int (N idx + 1) / real_of_int (get_default (df idx) t 0 + 1)) + 1"

text \<open>The divisor of a score: the stored norm, or 1 when the norm is zero or absent.\<close>

definition norm_divisor :: "index \<Rightarrow> int \<Rightarrow> real" where
  "norm_divisor idx d =
     (case map_of (doc_norm idx) (IntKey d) of
        None \<Rightarrow> 1
      | Some n \<Rightarrow> if n = 0 then 1 else n)"

text \<open>The score of the formula for a list of query tokens and a document.\<close>

definition tfidf_score :: "index \<Rightarrow> string list \<Rightarrow> int \<Rightarrow> real" where
  "tfidf_score idx tokens d =
     (\<Sum>t\<in>set tokens. (1 + ln (real_of_int (term_frequency idx t d))) *
        inverse_document_frequency idx t) / norm_divisor idx d"

subsection \<open>\<^verbatim>\<open>backend/index/storage.py\<close>\<close>

text \<open>
  \<^verbatim>\<open>json.dump\<close> writes every dictionary as a JSON object, and the keys of a JSON
  object are strings: an \<^verbatim>\<open>int\<close> key is written as its decimal numeral.
  \<^verbatim>\<open>json.load\<close> reads an object back as a dictionary with \<^verbatim>\<open>str\<close> keys. Strings,
  integers, lists and floats come back as they were written (a float is written by
  \<^verbatim>\<open>repr\<close>, which \<^verbatim>\<open>float\<close> reads back exactly).
\<close>

definition digit_char :: "nat \<Rightarrow> char" where
  "digit_char n = ''0123456789'' ! n"

function str_nat :: "nat \<Rightarrow> string" where
  "str_nat n = (if n < 10 then [digit_char n] else str_nat (n div 10) @ [digit_char (n mod 10)])"
  by pat_completeness auto
termination
  by (relation "measure id") auto

declare str_nat.simps [simp del]

definition str_int :: "int \<Rightarrow> string" where
  "str_int i = (if i < 0 then CHR ''-'' # str_nat (nat (- i)) else str_nat (nat i))"

definition json_key :: "dockey \<Rightarrow> string" where
  "json_key k = (case k of IntKey i \<Rightarrow> str_int i | StrKey s \<Rightarrow> s)"

text \<open>The JSON document of an index: one object per dictionary, members in order.\<close>

record json_index =
  j_doc_id_map :: "(string \<times> string) list"
  j_forward_index :: "(string \<times> string) list"
  j_postings :: "(string \<times> posting list) list"
  j_df :: "(string \<times> int) list"
  j_idf :: "(string \<times> real) list"
  j_N :: int
  j_doc_norm :: "(string \<times> real) list"

definition json_dump :: "index \<Rightarrow> json_index" where
  "json_dump idx =
     \<lparr>j_doc_id_map = map (\<lambda>(k, v). (json_key k, v)) (doc_id_map idx),
      j_forward_index = map (\<lambda>(k, v). (json_key k, v)) (forward_index idx),
      j_postings = postings idx,
      j_df = df idx,
      j_idf = idf idx,
      j_N = N idx,
      j_doc_norm = map (\<lambda>(k, v). (json_key k, v)) (doc_norm idx)\<rparr>"

text \<open>The dictionary \<^verbatim>\<open>json.load\<close> builds from the members of an object.\<close>

definition load_object :: "(string \<times> 'v) list \<Rightarrow> (string \<times> 'v) list" where
  "load_object members = fold (\<lambda>(k, v) d. AList.update k v d) members []"

definition json_load :: "json_index \<Rightarrow> index" where
  "json_load j =
     \<lparr>doc_id_map = map (\<lambda>(k, v). (StrKey k, v)) (load_object (j_doc_id_map j)),
      forward_index = map (\<lambda>(k, v). (StrKey k, v)) (load_object (j_forward_index j)),
      postings = load_object (j_postings j),
      df = load_object (j_df j),
      idf = load_object (j_idf j),
      N = j_N j,
      doc_norm = map (\<lambda>(k, v). (StrKey k, v)) (load_object (j_doc_norm j))\<rparr>"

text \<open>The files: a path holds the JSON document last written to it.\<close>

type_synonym file_system = "string \<rightharpoonup> json_index"

definition save_index :: "index \<Rightarrow> string \<Rightarrow> file_system \<Rightarrow> file_system" where
  "save_index index_data path fs = fs(path \<mapsto> json_dump index_data)"

definition load_index :: "string \<Rightarrow> file_system \<Rightarrow> py_error + index" where
  "load_index path fs =
     (case fs path of None \<Rightarrow> Inl FileNotFoundError | Some j \<Rightarrow> Inr (json_load j))"

subsection \<open>\<^verbatim>\<open>backend/service/lru_cache.py\<close>\<close>

text \<open>
  The \<^verbatim>\<open>_Node\<close> objects live in a heap, a function from addresses to nodes; a
  reference to a node is its address, and \<^verbatim>\<open>None\<close> in \<^verbatim>\<open>prev\<close> or \<^verbatim>\<open>next\<close> is
  \<open>None\<close>. The value of a node is \<open>None\<close> for Python's \<^verbatim>\<open>None\<close> (the sentinels).
\<close>

type_synonym addr = nat

record 'v node =
  key :: string
  val :: "'v option"
  prev :: "addr option"
  nxt :: "addr option"

text \<open>
  The fields of an \<^verbatim>\<open>LRUCache\<close> (\<open>map'\<close> is \<^verbatim>\<open>self.map\<close>), the heap of its nodes
  and the next free address of the heap.
\<close>

record 'v LRUCache =
  capacity :: int
  map' :: "(string \<times> addr) list"
  head :: addr
  tail :: addr
  hits :: int
  misses :: int
  heap :: "addr \<Rightarrow> 'v node"
  next_addr :: addr

text \<open>\<^verbatim>\<open>_Node(key, value)\<close>: a new object at the next free address.\<close>

definition new_node :: "string \<Rightarrow> 'v option \<Rightarrow> 'v LRUCache \<Rightarrow> addr \<times> 'v LRUCache" where
  "new_node k v c =
     (next_addr c,
      c\<lparr>heap := (heap c)(next_addr c := \<lparr>key = k, val = v, prev = None, nxt = None\<rparr>),
        next_addr := Suc (next_addr c)\<rparr>)"

text \<open>\<^verbatim>\<open>LRUCache.__init__(capacity)\<close>: the two sentinels are the nodes 0 and 1.\<close>

definition LRUCache_init :: "int \<Rightarrow> py_error + 'v LRUCache" where
  "LRUCache_init cap =
     (if cap \<le> 0 then Inl ValueError
      else Inr \<lparr>capacity = cap, map' = [], head = 0, tail = 1, hits = 0, misses = 0,
                heap = (\<lambda>a. \<lparr>key = [], val = None, prev = None, nxt = None\<rparr>)
                  (0 := \<lparr>key = [], val = None, prev = None, nxt = Some 1\<rparr>,
                   1 := \<lparr>key = [], val = None, prev = Some 0, nxt = None\<rparr>),
                next_addr = 2\<rparr>)"

text \<open>\<^verbatim>\<open>_remove(node)\<close>.\<close>

definition lru_remove :: "addr \<Rightarrow> 'v LRUCache \<Rightarrow> 'v LRUCache" where
  "lru_remove n c =
     (let h = heap c;
          p = prev (h n);
          x = nxt (h n);
          h1 = (case p of None \<Rightarrow> h | Some pa \<Rightarrow> h(pa := (h pa)\<lparr>nxt := x\<rparr>));
          h2 = (case x of None \<Rightarrow> h1 | Some xa \<Rightarrow> h1(xa := (h1 xa)\<lparr>prev := p\<rparr>));
          h3 = h2(n := (h2 n)\<lparr>prev := None, nxt := None\<rparr>)
      in c\<lparr>heap := h3\<rparr>)"

text \<open>
  \<^verbatim>\<open>_insert_front(node)\<close>; \<^verbatim>\<open>self.head.next.prev = node\<close> raises
  \<^verbatim>\<open>AttributeError\<close> when \<^verbatim>\<open>self.head.next\<close> is \<^verbatim>\<open>None\<close>.
\<close>

definition lru_insert_front :: "addr \<Rightarrow> 'v LRUCache \<Rightarrow> py_error + 'v LRUCache" where
  "lru_insert_front n c =
     (let h = heap c;
          h1 = h(n := (h n)\<lparr>nxt := nxt (h (head c))\<rparr>);
          h2 = h1(n := (h1 n)\<lparr>prev := Some (head c)\<rparr>)
      in case nxt (h2 (head c)) of
           None \<Rightarrow> Inl AttributeError
         | Some f \<Rightarrow>
             let h3 = h2(f := (h2 f)\<lparr>prev := Some n\<rparr>);
                 h4 = h3(head c := (h3 (head c))\<lparr>nxt := Some n\<rparr>)
             in Inr (c\<lparr>heap := h4\<rparr>))"

text \<open>\<^verbatim>\<open>_evict_lru()\<close>; \<^verbatim>\<open>self.map.pop(lru.key, None)\<close> deletes the key if it is there.\<close>

definition lru_evict_lru :: "'v LRUCache \<Rightarrow> 'v LRUCache" where
  "lru_evict_lru c =
     (case prev (heap c (tail c)) of
        None \<Rightarrow> c
      | Some lru \<Rightarrow>
          if lru = head c then c
          else let c1 = lru_remove lru c
               in c1\<lparr>map' := AList.delete (key (heap c1 lru)) (map' c1)\<rparr>)"

text \<open>\<^verbatim>\<open>get(key)\<close>: the value (or \<^verbatim>\<open>None\<close>) and the cache after the call.\<close>

definition lru_get :: "string \<Rightarrow> 'v LRUCache \<Rightarrow> py_error + ('v option \<times> 'v LRUCache)" where
  "lru_get k c =
     (case map_of (map' c) k of
        None \<Rightarrow> Inr (None, c\<lparr>misses := misses c + 1\<rparr>)
      | Some n \<Rightarrow>
          (case lru_insert_front n (lru_remove n c) of
             Inl e \<Rightarrow> Inl e
           | Inr c' \<Rightarrow> Inr (val (heap c' n), c'\<lparr>hits := hits c' + 1\<rparr>)))"

text \<open>\<^verbatim>\<open>put(key, value)\<close>.\<close>

definition lru_put :: "string \<Rightarrow> 'v option \<Rightarrow> 'v LRUCache \<Rightarrow> py_error + 'v LRUCache" where
  "lru_put k v c =
     (case map_of (map' c) k of
        Some n \<Rightarrow>
          let c1 = c\<lparr>heap := (heap c)(n := (heap c n)\<lparr>val := v\<rparr>)\<rparr>
          in lru_insert_front n (lru_remove n c1)
      | None \<Rightarrow>
          let (n, c1) = new_node k v c;
              c2 = c1\<lparr>map' := AList.update k n (map' c1)\<rparr>
          in (case lru_insert_front n c2 of
                Inl e \<Rightarrow> Inl e
              | Inr c3 \<Rightarrow>
                  Inr (if int (length (map' c3)) > capacity c3 then lru_evict_lru c3 else c3)))"

text \<open>A sequence of \<^verbatim>\<open>put\<close> calls, stopping at the first exception.\<close>

fun puts :: "py_error + 'v LRUCache \<Rightarrow> (string \<times> 'v option) list \<Rightarrow> py_error + 'v LRUCache" where
  "puts r [] = r"
| "puts r ((k, v) # kvs) = (case r of Inl e \<Rightarrow> Inl e | Inr c \<Rightarrow> puts (lru_put k v c) kvs)"

subsection \<open>What a cache holds\<close>

text \<open>The keys of the cache, the set of \<^verbatim>\<open>self.map\<close>'s keys.\<close>

definition cache_keys :: "'v LRUCache \<Rightarrow> string set" where
  "cache_keys c = set (map fst (map' c))"

text \<open>
  The nodes reached from \<open>a\<close> by \<^verbatim>\<open>next\<close> before the node \<open>t\<close>, at most \<open>fuel\<close> of
  them; the recency list is the walk from \<^verbatim>\<open>head.next\<close> to \<^verbatim>\<open>tail\<close>, most recently
  used first, and the heap has fewer than \<open>next_addr\<close> nodes to visit.
\<close>

fun walk :: "(addr \<Rightarrow> 'v node) \<Rightarrow> addr \<Rightarrow> addr option \<Rightarrow> nat \<Rightarrow> addr list" where
  "walk h t None fuel = []"
| "walk h t (Some a) 0 = []"
| "walk h t (Some a) (Suc fuel) = (if a = t then [] else a # walk h t (nxt (h a)) fuel)"

definition recency_keys :: "'v LRUCache \<Rightarrow> string list" where
  "recency_keys c =
     map (\<lambda>a. key (heap c a)) (walk (heap c) (tail c) (nxt (heap c (head c))) (next_addr c))"

text \<open>The key of the least recently used entry, the node before \<^verbatim>\<open>tail\<close>.\<close>

definition lru_key :: "'v LRUCache \<Rightarrow> string option" where
  "lru_key c =
     (case prev (heap c (tail c)) of
        None \<Rightarrow> None
      | Some a \<Rightarrow> if a = head c then None else Some (key (heap c a)))"

text \<open>
  The representation invariant: \<open>ns\<close> are the nodes between the sentinels, most
  recently used first; consecutive nodes point at each other; \<^verbatim>\<open>self.map\<close> maps the
  key of each of these nodes to the node, and nothing else; the size is within the
  capacity.
\<close>

fun linked :: "(addr \<Rightarrow> 'v node) \<Rightarrow> addr list \<Rightarrow> bool" where
  "linked h [] = True"
| "linked h [a] = True"
| "linked h (a # b # ns) = (nxt (h a) = Some b \<and> prev (h b) = Some a \<and> linked h (b # ns))"

definition lru_struct :: "'v LRUCache \<Rightarrow> addr list \<Rightarrow> bool" where
  "lru_struct c ns \<longleftrightarrow>
     0 < capacity c \<and>
     distinct (head c # ns @ [tail c]) \<and>
     linked (heap c) (head c # ns @ [tail c]) \<and>
     (\<forall>a\<in>set (head c # ns @ [tail c]). a < next_addr c) \<and>
     distinct (map (\<lambda>a. key (heap c a)) ns) \<and>
     set (map' c) = (\<lambda>a. (key (heap c a), a)) ` set ns \<and>
     distinct (map fst (map' c))"

definition lru_rep :: "'v LRUCache \<Rightarrow> addr list \<Rightarrow> bool" where
  "lru_rep c ns \<longleftrightarrow> lru_struct c ns \<and> int (length ns) \<le> capacity c"

subsection \<open>\<^verbatim>\<open>backend/service/search_service.py\<close>\<close>

text \<open>
  The fields of a \<^verbatim>\<open>SearchService\<close> (\<open>index'\<close> is \<^verbatim>\<open>self.index\<close>); the cache is
  \<open>None\<close> when caching is disabled.
\<close>

record SearchService =
  index' :: index
  cache :: "(int \<times> real) list LRUCache option"
  total_queries :: int
  total_time_ms :: real

text \<open>The dictionary a call of \<^verbatim>\<open>search\<close> returns.\<close>

record response =
  results :: "(int \<times> real) list"
  elapsed_ms :: real
  cached :: bool

text \<open>\<^verbatim>\<open>SearchService.__init__(index, cache_capacity)\<close>.\<close>

definition SearchService_init :: "index \<Rightarrow> int \<Rightarrow> py_error + SearchService" where
  "SearchService_init idx cache_capacity =
     (if cache_capacity > 0
      then (case LRUCache_init cache_capacity of
              Inl e \<Rightarrow> Inl e
            | Inr c \<Rightarrow> Inr \<lparr>index' = idx, cache = Some c, total_queries = 0, total_time_ms = 0\<rparr>)
      else Inr \<lparr>index' = idx, cache = None, total_queries = 0, total_time_ms = 0\<rparr>)"

text \<open>\<^verbatim>\<open>_normalize_key(query)\<close>.\<close>

definition normalize_key :: "string \<Rightarrow> string" where
  "normalize_key query = join '' '' (preprocess query)"

text \<open>
  The end of every path through \<^verbatim>\<open>search\<close>: the elapsed time is added to the total
  and the response is returned. \<open>start\<close> and \<open>stop\<close> are the two readings of
  \<^verbatim>\<open>time.perf_counter()\<close>.
\<close>

definition respond ::
  "real \<Rightarrow> real \<Rightarrow> (int \<times> real) list \<Rightarrow> bool \<Rightarrow> SearchService \<Rightarrow> response \<times> SearchService" where
  "respond start stop res was_cached svc =
     (let elapsed = (stop - start) * 1000
      in (\<lparr>results = res, elapsed_ms = elapsed, cached = was_cached\<rparr>,
          svc\<lparr>total_time_ms := total_time_ms svc + elapsed\<rparr>))"

text \<open>
  \<^verbatim>\<open>SearchService.search(query)\<close>: the response and the service after the call, or
  the exception the call ends with.
\<close>

definition SearchService_search ::
  "string \<Rightarrow> real \<Rightarrow> real \<Rightarrow> SearchService \<Rightarrow> py_error + (response \<times> SearchService)" where
  "SearchService_search query start stop svc =
     (let svc1 = svc\<lparr>total_queries := total_queries svc + 1\<rparr>;
          q = strip query
      in if q = [] then Inr (respond start stop [] False svc1)
         else
           let k = normalize_key q in
           if k = [] then Inr (respond start stop [] False svc1)
           else
             (case cache svc1 of
                None \<Rightarrow>
                  (case search q (index' svc1) of
                     Inl e \<Rightarrow> Inl e
                   | Inr res \<Rightarrow> Inr (respond start stop res False svc1))
              | Some c \<Rightarrow>
                  (case lru_get k c of
                     Inl e \<Rightarrow> Inl e
                   | Inr (hit, c1) \<Rightarrow>
                       (case hit of
                          Some res \<Rightarrow> Inr (respond start stop res True (svc1\<lparr>cache := Some c1\<rparr>))
                        | None \<Rightarrow>
                            (case search q (index' svc1) of
                               Inl e \<Rightarrow> Inl e
                             | Inr res \<Rightarrow>
                                 if res \<noteq> []
                                 then (case lru_put k (Some res) c1 of
                                         Inl e \<Rightarrow> Inl e
                                       | Inr c2 \<Rightarrow>
                                           Inr (respond start stop res False
                                                  (svc1\<lparr>cache := Some c2\<rparr>)))
                                 else Inr (respond start stop res False
                                             (svc1\<lparr>cache := Some c1\<rparr>)))))))"

text \<open>
  A fresh service answering the same query twice: the two \<^verbatim>\<open>cached\<close> flags and the
  hit counter of the cache afterwards (\<open>None\<close> without a cache); \<open>t1\<close> to \<open>t4\<close> are
  the clock readings.
\<close>

definition search_twice ::
  "index \<Rightarrow> int \<Rightarrow> string \<Rightarrow> real \<Rightarrow> real \<Rightarrow> real \<Rightarrow> real \<Rightarrow> py_error + (bool \<times> bool \<times> int option)" where
  "search_twice idx cap query t1 t2 t3 t4 =
     (case SearchService_init idx cap of
        Inl e \<Rightarrow> Inl e
      | Inr svc0 \<Rightarrow>
          (case SearchService_search query t1 t2 svc0 of
             Inl e \<Rightarrow> Inl e
           | Inr (r1, svc1) \<Rightarrow>
               (case SearchService_search query t3 t4 svc1 of
                  Inl e \<Rightarrow> Inl e
                | Inr (r2, svc2) \<Rightarrow> Inr (cached r1, cached r2, map_option hits (cache svc2)))))"

subsection \<open>Example corpora\<close>

text \<open>
  Two documents, \<^verbatim>\<open>"search engines index documents"\<close> and
  \<^verbatim>\<open>"search indexing works"\<close>, and the index \<^verbatim>\<open>build_index\<close> returns for them.
\<close>

definition example_files :: "(string \<times> string option) list" where
  "example_files =
     [(''a.pdf'', Some ''search engines index documents''),
      (''b.pdf'', Some ''search indexing works'')]"

definition example_index :: index where
  "example_index =
     \<lparr>doc_id_map = [(IntKey 0, ''a.pdf''), (IntKey 1, ''b.pdf'')],
      forward_index =
        [(IntKey 0, ''search engines index documents''), (IntKey 1, ''search indexing works'')],
      postings =
        [(''search'', [\<lparr>doc_id = 0, tf = 1\<rparr>, \<lparr>doc_id = 1, tf = 1\<rparr>]),
         (''engines'', [\<lparr>doc_id = 0, tf = 1\<rparr>]),
         (''index'', [\<lparr>doc_id = 0, tf = 1\<rparr>]),
         (''documents'', [\<lparr>doc_id = 0, tf = 1\<rparr>]),
         (''indexing'', [\<lparr>doc_id = 1, tf = 1\<rparr>]),
         (''works'', [\<lparr>doc_id = 1, tf = 1\<rparr>])],
      df = [(''search'', 2), (''engines'', 1), (''index'', 1), (''documents'', 1),
            (''indexing'', 1), (''works'', 1)],
      idf = [(''search'', 1), (''engines'', ln (3 / 2) + 1), (''index'', ln (3 / 2) + 1),
             (''documents'', ln (3 / 2) + 1), (''indexing'', ln (3 / 2) + 1),
             (''works'', ln (3 / 2) + 1)],
      N = 2,
      doc_norm =
        [(IntKey 0, sqrt (3 * (ln (3 / 2) + 1)\<^sup>2 + 1)),
         (IntKey 1, sqrt (2 * (ln (3 / 2) + 1)\<^sup>2 + 1))]\<rparr>"

text \<open>One document of two terms, and one document made of a stop word only.\<close>

definition small_files :: "(string \<times> string option) list" where
  "small_files = [(''a.pdf'', Some ''search engines'')]"

definition small_index :: index where
  "small_index =
     \<lparr>doc_id_map = [(IntKey 0, ''a.pdf'')],
      forward_index = [(IntKey 0, ''search engines'')],
      postings = [(''search'', [\<lparr>doc_id = 0, tf = 1\<rparr>]), (''engines'', [\<lparr>doc_id = 0, tf = 1\<rparr>])],
      df = [(''search'', 1), (''engines'', 1)],
      idf = [(''search'', 1), (''engines'', 1)],
      N = 1,
      doc_norm = [(IntKey 0, sqrt 2)]\<rparr>"

definition stopword_files :: "(string \<times> string option) list" where
  "stopword_files = [(''a.pdf'', Some ''the'')]"

definition stopword_index :: index where
  "stopword_index =
     \<lparr>doc_id_map = [(IntKey 0, ''a.pdf'')],
      forward_index = [(IntKey 0, ''the'')],
      postings = [], df = [], idf = [], N = 1, doc_norm = []\<rparr>"

text \<open>The index \<^verbatim>\<open>load_index\<close> reads back after \<^verbatim>\<open>save_index\<close> wrote \<open>small_index\<close>.\<close>

definition loaded_small_index :: index where
  "loaded_small_index =
     \<lparr>doc_id_map = [(StrKey ''0'', ''a.pdf'')],
      forward_index = [(StrKey ''0'', ''search engines'')],
      postings = [(''search'', [\<lparr>doc_id = 0, tf = 1\<rparr>]), (''engines'', [\<lparr>doc_id = 0, tf = 1\<rparr>])],
      df = [(''search'', 1), (''engines'', 1)],
      idf = [(''search'', 1), (''engines'', 1)],
      N = 1,
      doc_norm = [(StrKey ''0'', sqrt 2)]\<rparr>"

section \<open>The tokenizer\<close>

lemma lower_char_plus_32:
  "65 \<le> (of_char c :: nat) \<Longrightarrow> (of_char c :: nat) \<le> 90 \<Longrightarrow>
   of_char (lower_char c) = (of_char c :: nat) + 32"
  by (cases c) (auto simp: lower_char_def of_bool_def split: if_splits)

lemma lower_char_token: "is_token_char c \<Longrightarrow> lower_char c = c"
  by (auto simp: is_token_char_def lower_char_def Let_def)

lemma space_not_token: "\<not> is_token_char (CHR '' '')"
  by (simp add: is_token_char_def)

lemma lower_char_space: "lower_char (CHR '' '') = CHR '' ''"
  by (simp add: lower_char_def)

lemma isspace_space: "isspace (CHR '' '')"
  by (simp add: isspace_def)

lemma token_not_space: "is_token_char c \<Longrightarrow> \<not> isspace c"
  by (auto simp: is_token_char_def isspace_def Let_def)

lemma split_tokens: "t \<in> set (split s) \<Longrightarrow> t \<noteq> [] \<and> (\<forall>c\<in>set t. \<not> isspace c) \<and> set t \<subseteq> set s"
proof (induction s arbitrary: t rule: split.induct)
  case (1 s)
  show ?case
  proof (cases "dropWhile isspace s")
    case Nil
    with "1.prems" show ?thesis by (simp add: split.simps)
  next
    case (Cons c cs)
    let ?tok = "c # takeWhile (\<lambda>x. \<not> isspace x) cs"
    let ?rest = "dropWhile (\<lambda>x. \<not> isspace x) cs"
    from Cons "1.prems" have "t = ?tok \<or> t \<in> set (split ?rest)"
      by (subst (asm) split.simps) simp
    then show ?thesis
    proof
      assume t: "t = ?tok"
      have c: "\<not> isspace c"
        using Cons hd_dropWhile [of isspace s] by auto
      have sub: "set (c # cs) \<subseteq> set s"
        using set_dropWhileD [of _ isspace s] Cons by auto
      have "set (takeWhile (\<lambda>x. \<not> isspace x) cs) \<subseteq> set cs"
        by (auto dest: set_takeWhileD)
      with sub have "set ?tok \<subseteq> set s" by auto
      moreover have "\<forall>x\<in>set ?tok. \<not> isspace x"
        using c by (auto dest: set_takeWhileD)
      ultimately show ?thesis using t by simp
    next
      assume "t \<in> set (split ?rest)"
      from "1.IH" [OF Cons this]
      have "t \<noteq> [] \<and> (\<forall>c\<in>set t. \<not> isspace c) \<and> set t \<subseteq> set ?rest" .
      moreover have "set ?rest \<subseteq> set s"
        using set_dropWhileD [of _ "\<lambda>x. \<not> isspace x" cs] set_dropWhileD [of _ isspace s] Cons
        by auto
      ultimately show ?thesis by auto
    qed
  qed
qed

lemma TOKEN_RE_sub_chars: "c \<in> set (TOKEN_RE_sub s) \<Longrightarrow> is_token_char c \<or> c = CHR '' ''"
  by (induction s rule: TOKEN_RE_sub.induct) (auto split: if_splits)

lemma preprocess_with_token_list: "token_list (preprocess_with txt sw)"
proof -
  have "t \<noteq> [] \<and> (\<forall>c\<in>set t. is_token_char c)"
    if "t \<in> set (split (TOKEN_RE_sub (lower txt)))" for t
  proof -
    from split_tokens [OF that]
    have ne: "t \<noteq> []" and ns: "\<forall>c\<in>set t. \<not> isspace c"
      and sub: "set t \<subseteq> set (TOKEN_RE_sub (lower txt))" by auto
    have "is_token_char c" if "c \<in> set t" for c
      using that ns sub TOKEN_RE_sub_chars [of c "lower txt"] isspace_space by auto
    with ne show ?thesis by simp
  qed
  then show ?thesis by (auto simp: token_list_def preprocess_with_def)
qed

lemma preprocess_with_not_stop: "t \<in> set (preprocess_with txt sw) \<Longrightarrow> t \<notin> sw"
  by (auto simp: preprocess_with_def split: if_splits)

lemma TOKEN_RE_sub_append:
  "\<forall>c\<in>set t. is_token_char c \<Longrightarrow> TOKEN_RE_sub (t @ r) = t @ TOKEN_RE_sub r"
  by (induction t) auto

lemma join_hd_token:
  "token_list (u # ts) \<Longrightarrow> \<exists>c cs. join '' '' (u # ts) = c # cs \<and> is_token_char c"
  by (cases u; cases ts) (auto simp: token_list_def)

lemma join_chars: "token_list ts \<Longrightarrow> c \<in> set (join '' '' ts) \<Longrightarrow> is_token_char c \<or> c = CHR '' ''"
  by (induction "'' ''" ts rule: join.induct) (auto simp: token_list_def)

lemma lower_join: "token_list ts \<Longrightarrow> lower (join '' '' ts) = join '' '' ts"
  unfolding lower_def
  by (rule map_idI) (auto dest!: join_chars simp: lower_char_token lower_char_space)

lemma TOKEN_RE_sub_join: "token_list ts \<Longrightarrow> TOKEN_RE_sub (join '' '' ts) = join '' '' ts"
proof (induction "'' ''" ts rule: join.induct)
  case 1
  then show ?case by simp
next
  case (2 t)
  then show ?case using TOKEN_RE_sub_append [of t "[]"] by (simp add: token_list_def)
next
  case (3 t u ts)
  from 3(2) have t: "\<forall>c\<in>set t. is_token_char c" and tl: "token_list (u # ts)"
    by (auto simp: token_list_def)
  from join_hd_token [OF tl] obtain c cs
    where j: "join '' '' (u # ts) = c # cs" and c: "is_token_char c" by blast
  have "TOKEN_RE_sub (CHR '' '' # join '' '' (u # ts)) = CHR '' '' # TOKEN_RE_sub (join '' '' (u # ts))"
    using j c space_not_token by simp
  with 3(1) [OF tl] t show ?case
    by (simp add: TOKEN_RE_sub_append)
qed

lemma split_dropWhile: "split (dropWhile isspace s) = split s"
  by (subst split.simps, subst (2) split.simps) simp

lemma split_token_space:
  assumes "t \<noteq> []" and "\<forall>c\<in>set t. \<not> isspace c"
  shows "split (t @ CHR '' '' # r) = t # split r"
proof -
  from assms obtain c cs where t: "t = c # cs" by (cases t) auto
  with assms have c: "\<not> isspace c" and cs: "\<forall>x\<in>set cs. \<not> isspace x" by auto
  have "split (t @ CHR '' '' # r) = t # split (CHR '' '' # r)"
    using c cs isspace_space
    by (subst split.simps) (simp add: t takeWhile_append2 dropWhile_append2 takeWhile_tail)
  also have "split (CHR '' '' # r) = split (dropWhile isspace r)"
    using split_dropWhile [of "CHR '' '' # r"] isspace_space by simp
  finally show ?thesis by (simp add: split_dropWhile)
qed

lemma split_token:
  assumes "t \<noteq> []" and "\<forall>c\<in>set t. \<not> isspace c"
  shows "split t = [t]"
proof -
  from assms obtain c cs where t: "t = c # cs" by (cases t) auto
  with assms have c: "\<not> isspace c" and cs: "\<forall>x\<in>set cs. \<not> isspace x" by auto
  have dw: "dropWhile (\<lambda>x. \<not> isspace x) cs = []"
    using cs by simp
  show ?thesis using c cs
    by (subst split.simps) (simp add: t dw split.simps [of "[]"])
qed

lemma split_join: "token_list ts \<Longrightarrow> split (join '' '' ts) = ts"
proof (induction "'' ''" ts rule: join.induct)
  case 1
  then show ?case by (simp add: split.simps)
next
  case (2 t)
  then show ?case by (simp add: token_list_def split_token token_not_space)
next
  case (3 t u ts)
  from 3(2) have t: "t \<noteq> []" "\<forall>c\<in>set t. \<not> isspace c" and tl: "token_list (u # ts)"
    by (auto simp: token_list_def token_not_space)
  show ?case using 3(1) [OF tl] split_token_space [OF t] by simp
qed

lemma join_eq_Nil: "token_list ts \<Longrightarrow> join sep ts = [] \<Longrightarrow> ts = []"
  by (cases "(sep, ts)" rule: join.cases) (auto simp: token_list_def)

lemma preprocess_with_join:
  assumes "token_list ts" and "\<forall>t\<in>set ts. t \<notin> sw"
  shows "preprocess_with (join '' '' ts) sw = ts"
proof (cases "join '' '' ts = []")
  case True
  with assms(1) have "ts = []" by (rule join_eq_Nil)
  then show ?thesis by (simp add: preprocess_with_def)
next
  case False
  have "filter (\<lambda>t. t \<noteq> [] \<and> t \<notin> sw) ts = ts"
    using assms by (auto simp: token_list_def filter_id_conv)
  with False assms(1) show ?thesis
    by (simp add: preprocess_with_def lower_join TOKEN_RE_sub_join split_join)
qed

lemmas preprocess_eval =
  preprocess_def preprocess_with_def lower_def lower_char_def is_token_char_def isspace_def
  split.simps STOPWORDS_def

text \<open>
  Claim C10. The tokenizer is idempotent on its own output joined by single spaces: for
  every string \<open>s\<close>, \<open>preprocess\<close> of \<^verbatim>\<open>" ".join(preprocess(s))\<close> is
  \<open>preprocess s\<close>. Hence the cache key of \<^verbatim>\<open>SearchService._normalize_key\<close>
  normalizes to itself.
\<close>

theorem preprocess_join_idempotent:
  "preprocess (join '' '' (preprocess s)) = preprocess s"
  unfolding preprocess_def
  by (rule preprocess_with_join) (auto simp: preprocess_with_token_list preprocess_with_not_stop)

theorem preprocess_join_idempotent_witness:
  "preprocess ''The Search-Engines, of  DOC'' = [''search'', ''engines'', ''doc''] \<and>
   preprocess ''search engines doc'' = [''search'', ''engines'', ''doc'']"
proof -
  have a: "preprocess ''The Search-Engines, of  DOC'' = [''search'', ''engines'', ''doc'']"
    by (simp add: preprocess_eval)
  have "join '' '' [''search'', ''engines'', ''doc''] = ''search engines doc''"
    by simp
  with preprocess_join_idempotent [of "''The Search-Engines, of  DOC''"] a show ?thesis
    by simp
qed

section \<open>The query engine\<close>

subsection \<open>The early returns\<close>

lemma collect_lists_None:
  "\<exists>t\<in>set ts. (case map_of post t of None \<Rightarrow> True | Some plist \<Rightarrow> plist = []) \<Longrightarrow>
   collect_lists post ts = None"
  by (induction ts) (auto split: option.splits)

lemma collect_lists_Some:
  "\<forall>t\<in>set ts. \<exists>plist. map_of post t = Some plist \<and> plist \<noteq> [] \<Longrightarrow>
   collect_lists post ts = Some (map (\<lambda>t. the (map_of post t)) ts)"
  by (induction ts) (auto split: option.splits)

subsection \<open>The intersection\<close>

lemma intersect_loop_eq:
  "finite common \<Longrightarrow>
   intersect_loop common pls =
     sorted_list_of_set (common \<inter> (\<Inter>plist\<in>set pls. doc_id ` set plist))"
proof (induction pls arbitrary: common)
  case Nil
  then show ?case by simp
next
  case (Cons plist rest)
  let ?c = "common \<inter> doc_id ` set plist"
  have eq: "common \<inter> (\<Inter>p\<in>set (plist # rest). doc_id ` set p) =
            ?c \<inter> (\<Inter>p\<in>set rest. doc_id ` set p)"
    by auto
  show ?case
  proof (cases "?c = {}")
    case True
    then show ?thesis unfolding eq by (simp add: Let_def)
  next
    case False
    have "finite ?c" using Cons.prems by simp
    from Cons.IH [OF this] False show ?thesis unfolding eq by (simp add: Let_def)
  qed
qed

lemma and_intersect_eq:
  assumes "pls \<noteq> []"
  shows "and_intersect pls = sorted_list_of_set (\<Inter>plist\<in>set pls. doc_id ` set plist)"
proof (cases "sort_key length pls")
  case Nil
  then have "length (sort_key length pls) = 0" by simp
  with assms show ?thesis by simp
next
  case (Cons base rest)
  have "set pls = set (sort_key length pls)" by simp
  also have "\<dots> = insert base (set rest)" using Cons by simp
  finally have s: "set pls = insert base (set rest)" .
  have "and_intersect pls = intersect_loop (doc_id ` set base) rest"
    using assms Cons by (simp add: and_intersect_def)
  also have "\<dots> = sorted_list_of_set (doc_id ` set base \<inter> (\<Inter>p\<in>set rest. doc_id ` set p))"
    by (rule intersect_loop_eq) simp
  finally show ?thesis by (simp add: s)
qed

lemma finite_Inter_postings:
  "pls \<noteq> [] \<Longrightarrow> finite (\<Inter>plist\<in>set pls. doc_id ` set plist)"
  by (cases pls) (auto intro: finite_subset)

subsection \<open>The scores\<close>

lemma tf_dict_snoc: "tf_dict (es @ [e]) = (tf_dict es)(doc_id e \<mapsto> tf e)"
  by (simp add: tf_dict_def)

lemma tf_dict_Some: "tf_dict plist d = Some f \<Longrightarrow> \<exists>e\<in>set plist. doc_id e = d \<and> tf e = f"
  by (induction plist arbitrary: f rule: rev_induct)
     (auto simp: tf_dict_snoc tf_dict_def split: if_splits)

lemma tf_dict_None: "tf_dict plist d = None \<longleftrightarrow> d \<notin> doc_id ` set plist"
  by (induction plist rule: rev_induct) (auto simp: tf_dict_snoc tf_dict_def)

lemma map_of_build_tf_map:
  "build_tf_map post ts = Inr tfm \<Longrightarrow> t \<in> set ts \<Longrightarrow>
   \<exists>plist. map_of post t = Some plist \<and> map_of tfm t = Some (tf_dict plist)"
proof -
  assume b: "build_tf_map post ts = Inr tfm" and t: "t \<in> set ts"
  from b have all: "\<forall>t\<in>set ts. map_of post t \<noteq> None"
    and tfm: "tfm = map (\<lambda>t. (t, tf_dict (the (map_of post t)))) ts"
    by (auto simp: build_tf_map_def split: if_splits)
  from all t obtain plist where p: "map_of post t = Some plist" by auto
  have "map_of tfm t = Some (tf_dict (the (map_of post t)))"
    unfolding tfm using t by (induction ts) auto
  with p show ?thesis by simp
qed

lemma score_terms_total:
  assumes "\<forall>t\<in>set ts. \<exists>m. map_of tfm t = Some m \<and> (\<forall>f. m d = Some f \<longrightarrow> 0 \<le> f)"
  shows "\<exists>r. score_terms tfm idfs d ts s = Inr r"
  using assms
proof (induction ts arbitrary: s)
  case Nil
  then show ?case by simp
next
  case (Cons t ts)
  from Cons.prems obtain m where m: "map_of tfm t = Some m" and
    nn: "\<forall>f. m d = Some f \<longrightarrow> 0 \<le> f" by auto
  show ?case
  proof (cases "m d")
    case None
    with m show ?thesis by simp
  next
    case (Some f)
    with nn have "0 \<le> f" by simp
    with Some m Cons.IH Cons.prems show ?thesis
      by (auto simp: math_log_def Let_def)
  qed
qed

lemma score_all_fst:
  "score_all tfm idfs norms ts ds = Inr scores \<Longrightarrow> map fst scores = ds"
  by (induction ds arbitrary: scores) (auto split: sum.splits)

lemma score_all_total:
  "\<forall>d\<in>set ds. \<exists>r. score_doc tfm idfs norms ts d = Inr r \<Longrightarrow>
   \<exists>scores. score_all tfm idfs norms ts ds = Inr scores"
  by (induction ds) (auto split: sum.splits)

lemma score_all_member:
  "score_all tfm idfs norms ts ds = Inr scores \<Longrightarrow> (d, sc) \<in> set scores \<Longrightarrow>
   score_doc tfm idfs norms ts d = Inr sc"
  by (induction ds arbitrary: scores) (auto split: sum.splits)

lemma score_doc_total:
  "\<exists>r. score_terms tfm idfs d ts 0 = Inr r \<Longrightarrow> \<exists>r. score_doc tfm idfs norms ts d = Inr r"
  by (auto simp: score_doc_def Let_def)

subsection \<open>The ranking\<close>

lemma sorted_rank_key:
  assumes "sorted (map (\<lambda>(d, s). (- s, d)) (res :: (int \<times> real) list))"
    and "distinct (map fst res)"
  shows "sorted_wrt (\<lambda>(d1, s1) (d2, s2). s2 < s1 \<or> (s1 = s2 \<and> d1 < d2)) res"
  using assms
proof (induction res)
  case Nil
  then show ?case by simp
next
  case (Cons x res)
  obtain d1 s1 where x: "x = (d1, s1)" by (cases x)
  have "s2 < s1 \<or> (s1 = s2 \<and> d1 < d2)" if "(d2, s2) \<in> set res" for d2 s2
  proof -
    from Cons.prems(1) that have "(- s1, d1) \<le> (- s2, d2)"
      by (auto simp: x)
    moreover from Cons.prems(2) that have "d1 \<noteq> d2"
      by (auto simp: x image_iff)
    ultimately show ?thesis by (auto simp: less_eq_prod_def)
  qed
  with Cons show ?case by (auto simp: x)
qed

lemma distinct_map_sort_key:
  "distinct (map f (sort_key k xs)) = distinct (map f xs)"
proof -
  have "mset (map f (sort_key k xs)) = mset (map f xs)" by simp
  then show ?thesis by (rule mset_eq_imp_distinct_iff)
qed

lemma sorted_ranked_before:
  assumes "sorted (map (\<lambda>(d, s). (- s, d)) (res :: (int \<times> real) list))"
    and "distinct (map fst res)"
  shows "sorted_wrt ranked_before res"
proof -
  have "(\<lambda>(d1, s1) (d2, s2). s2 < s1 \<or> (s1 = s2 \<and> d1 < d2)) = ranked_before"
    by (auto simp: ranked_before_def fun_eq_iff)
  with sorted_rank_key [OF assms] show ?thesis by simp
qed

lemma search_ranked:
  assumes tokens: "preprocess q \<noteq> []"
    and post: "\<forall>t\<in>set (preprocess q). \<exists>plist. map_of (postings idx) t = Some plist \<and>
                 plist \<noteq> [] \<and> (\<forall>e\<in>set plist. 0 \<le> tf e)"
  shows "\<exists>res. search q idx = Inr res \<and>
           set (map fst res) = (\<Inter>t\<in>set (preprocess q). term_docs idx t) \<and>
           distinct (map fst res) \<and>
           sorted_wrt ranked_before res \<and>
           (\<forall>(d, sc)\<in>set res.
              score_doc (map (\<lambda>t. (t, tf_dict (the (map_of (postings idx) t)))) (remdups (preprocess q)))
                (idf idx) (doc_norm idx) (remdups (preprocess q)) d = Inr sc)"
proof -
  let ?ts = "preprocess q"
  let ?pls = "map (\<lambda>t. the (map_of (postings idx) t)) ?ts"
  let ?I = "\<Inter>t\<in>set ?ts. term_docs idx t"
  let ?tfm = "map (\<lambda>t. (t, tf_dict (the (map_of (postings idx) t)))) (remdups ?ts)"
  have cl: "collect_lists (postings idx) ?ts = Some ?pls"
    using post by (intro collect_lists_Some) blast
  have ne: "?pls \<noteq> []" using tokens by simp
  have "term_docs idx t = doc_id ` set (the (map_of (postings idx) t))" if "t \<in> set ?ts" for t
    using post that by (auto simp: term_docs_def)
  then have I: "(\<Inter>plist\<in>set ?pls. doc_id ` set plist) = ?I"
    by simp
  have fin: "finite ?I" using finite_Inter_postings [OF ne] by (simp only: I)
  have cand: "and_intersect ?pls = sorted_list_of_set ?I"
    using and_intersect_eq [OF ne] by (simp only: I)
  show ?thesis
  proof (cases "sorted_list_of_set ?I = []")
    case True
    then have "?I = {}" using fin by (simp add: sorted_list_of_set_eq_Nil_iff)
    moreover have "search q idx = Inr []"
      using tokens cl cand True by (simp add: search_def Let_def)
    ultimately show ?thesis by simp
  next
    case False
    have tfm: "build_tf_map (postings idx) (remdups ?ts) = Inr ?tfm"
      using post by (auto simp: build_tf_map_def)
    have "\<exists>r. score_doc ?tfm (idf idx) (doc_norm idx) (remdups ?ts) d = Inr r" for d
    proof (rule score_doc_total, rule score_terms_total, rule ballI)
      fix t assume "t \<in> set (remdups ?ts)"
      then have t: "t \<in> set ?ts" by simp
      from map_of_build_tf_map [OF tfm] t obtain plist where
        p: "map_of (postings idx) t = Some plist" and m: "map_of ?tfm t = Some (tf_dict plist)"
        by auto
      from post t p have "\<forall>e\<in>set plist. 0 \<le> tf e" by auto
      then have "\<forall>f. tf_dict plist d = Some f \<longrightarrow> 0 \<le> f"
        by (auto dest: tf_dict_Some)
      with m show "\<exists>m. map_of ?tfm t = Some m \<and> (\<forall>f. m d = Some f \<longrightarrow> 0 \<le> f)"
        by blast
    qed
    then obtain scores where
      sc: "score_all ?tfm (idf idx) (doc_norm idx) (remdups ?ts) (sorted_list_of_set ?I) = Inr scores"
      using score_all_total by blast
    let ?res = "sort_key (\<lambda>(d, s). (- s, d)) scores"
    have res: "search q idx = Inr ?res"
      using tokens cl cand False tfm sc by (simp add: search_def Let_def)
    have fst: "map fst scores = sorted_list_of_set ?I" by (rule score_all_fst [OF sc])
    have "set (map fst ?res) = set (map fst scores)" by simp
    then have set: "set (map fst ?res) = ?I" using fin by (simp only: fst) simp
    have dist: "distinct (map fst ?res)"
      by (simp only: distinct_map_sort_key fst) simp
    have srt: "sorted_wrt ranked_before ?res"
      by (rule sorted_ranked_before [OF sorted_sort_key dist])
    have "\<forall>(d, sc)\<in>set ?res. score_doc ?tfm (idf idx) (doc_norm idx) (remdups ?ts) d = Inr sc"
      using score_all_member [OF sc] by auto
    with res set dist srt show ?thesis by blast
  qed
qed

section \<open>The indexer\<close>

subsection \<open>Dictionaries\<close>

lemma get_default_update:
  "get_default (AList.update k v al) k' dflt = (if k' = k then v else get_default al k' dflt)"
  by (simp add: get_default_def update_conv')

lemma map_of_Some_distinct:
  "distinct (map fst al) \<Longrightarrow> (map_of al k = Some v) = ((k, v) \<in> set al)"
  by simp

subsection \<open>\<^verbatim>\<open>Counter\<close>\<close>

lemma Counter_fold:
  "distinct (map fst c) \<Longrightarrow>
   distinct (map fst (fold (\<lambda>t c. AList.update t (get_default c t 0 + 1) c) ts c)) \<and>
   (\<forall>t. map_of (fold (\<lambda>t c. AList.update t (get_default c t 0 + 1) c) ts c) t =
      (if t \<in> set ts then Some (get_default c t 0 + int (count_list ts t)) else map_of c t))"
proof (induction ts arbitrary: c)
  case Nil
  then show ?case by simp
next
  case (Cons a ts)
  let ?c = "AList.update a (get_default c a 0 + 1) c"
  have "distinct (map fst ?c)" using Cons.prems by (simp add: distinct_update)
  from Cons.IH [OF this] show ?case
    by (auto simp: get_default_update update_conv' get_default_def)
qed

lemma distinct_Counter: "distinct (map fst (Counter ts))"
  using Counter_fold [of "[]" ts] by (simp add: Counter_def)

lemma map_of_Counter:
  "map_of (Counter ts) t = (if t \<in> set ts then Some (int (count_list ts t)) else None)"
  using Counter_fold [of "[]" ts] by (simp add: Counter_def get_default_def)

lemma count_list_pos: "t \<in> set ts \<Longrightarrow> 0 < count_list ts t"
  by (induction ts) auto

subsection \<open>The postings of one document\<close>

lemma add_counts_fold:
  assumes "distinct (map fst counts)" and "distinct (map fst post)" and "distinct (map fst dfs)"
    and "fold (add_count d) counts (post, dfs) = (post', dfs')"
  shows "distinct (map fst post') \<and> distinct (map fst dfs') \<and>
    (\<forall>t. map_of post' t =
       (case map_of counts t of
          None \<Rightarrow> map_of post t
        | Some f \<Rightarrow> Some (get_default post t [] @ [\<lparr>doc_id = d, tf = f\<rparr>]))) \<and>
    (\<forall>t. map_of dfs' t =
       (case map_of counts t of
          None \<Rightarrow> map_of dfs t
        | Some f \<Rightarrow> Some (get_default dfs t 0 + 1)))"
  using assms
proof (induction counts arbitrary: post dfs)
  case Nil
  then show ?case by simp
next
  case (Cons a counts)
  obtain k f where a: "a = (k, f)" by (cases a)
  let ?post = "AList.update k (get_default post k [] @ [\<lparr>doc_id = d, tf = f\<rparr>]) post"
  let ?dfs = "AList.update k (get_default dfs k 0 + 1) dfs"
  from Cons.prems(1) have dc: "distinct (map fst counts)" and k: "map_of counts k = None"
    by (auto simp: a map_of_eq_None_iff)
  have dp: "distinct (map fst ?post)" and dd: "distinct (map fst ?dfs)"
    using Cons.prems(2,3) by (simp_all add: distinct_update)
  have f: "fold (add_count d) counts (?post, ?dfs) = (post', dfs')"
    using Cons.prems(4) by (simp add: a add_count_def)
  from Cons.IH [OF dc dp dd f] k show ?case
    by (auto simp: a update_conv' get_default_update split: option.splits)
qed

lemma add_counts_Counter:
  assumes "distinct (map fst post)" and "distinct (map fst dfs)"
    and "add_counts d (Counter ts) (post, dfs) = (post', dfs')"
  shows "distinct (map fst post') \<and> distinct (map fst dfs') \<and>
    (\<forall>t. map_of post' t =
       (if t \<in> set ts
        then Some (get_default post t [] @ [\<lparr>doc_id = d, tf = int (count_list ts t)\<rparr>])
        else map_of post t)) \<and>
    (\<forall>t. map_of dfs' t =
       (if t \<in> set ts then Some (get_default dfs t 0 + 1) else map_of dfs t))"
  using add_counts_fold [OF distinct_Counter assms(1,2) assms(3) [unfolded add_counts_def]]
  by (simp add: map_of_Counter)

subsection \<open>The invariant of the main loop\<close>

lemma build_inv_init: "build_inv init_state"
  by (simp add: build_inv_def init_state_def get_default_def)

lemma build_inv_doc_id_range:
  assumes "build_inv st" and "map_of (st_forward_index st) (IntKey d) = Some txt"
  shows "0 \<le> d \<and> d < st_doc_id st"
proof -
  from assms(2) have "IntKey d \<in> fst ` set (st_forward_index st)"
    by (metis domI dom_map_of_conv_image_fst)
  with assms(1) show ?thesis by (auto simp: build_inv_def)
qed

lemma build_inv_step_text:
  assumes inv: "build_inv st" and ne: "txt \<noteq> []"
    and pd: "(if preprocess txt \<noteq> []
              then add_counts (st_doc_id st) (Counter (preprocess txt)) (st_postings st, st_df st)
              else (st_postings st, st_df st)) = (post', dfs')"
  shows "build_inv \<lparr>st_doc_id_map = AList.update (IntKey (st_doc_id st)) file_path (st_doc_id_map st),
           st_forward_index = AList.update (IntKey (st_doc_id st)) txt (st_forward_index st),
           st_postings = post', st_df = dfs', st_doc_id = st_doc_id st + 1\<rparr>"
proof -
  let ?d = "st_doc_id st"
  let ?ts = "preprocess txt"
  let ?post = "st_postings st"
  let ?dfs = "st_df st"
  let ?fwd = "st_forward_index st"
  let ?fwd' = "AList.update (IntKey ?d) txt ?fwd"
  from inv have d0: "0 \<le> ?d"
    and dm: "distinct (map fst (st_doc_id_map st))"
            "fst ` set (st_doc_id_map st) = IntKey ` {0..<?d}"
    and df: "distinct (map fst ?fwd)" "fst ` set ?fwd = IntKey ` {0..<?d}"
    and dp: "distinct (map fst ?post)" and dd: "distinct (map fst ?dfs)"
    and len: "\<And>t. map_of ?dfs t = map_option (\<lambda>plist. int (length plist)) (map_of ?post t)"
    and ent: "\<And>t plist. map_of ?post t = Some plist \<Longrightarrow>
        plist \<noteq> [] \<and> sorted_wrt (<) (map doc_id plist) \<and>
        (\<forall>e\<in>set plist. \<exists>txt. map_of ?fwd (IntKey (doc_id e)) = Some txt \<and>
           t \<in> set (preprocess txt) \<and> tf e = int (count_list (preprocess txt) t))"
    and cov: "\<And>d txt t. map_of ?fwd (IntKey d) = Some txt \<Longrightarrow> t \<in> set (preprocess txt) \<Longrightarrow>
        d \<in> doc_id ` set (get_default ?post t [])"
    unfolding build_inv_def by blast+
  have range: "{0..<?d + 1} = insert ?d {0..<?d}" using d0 by auto
  have fwd': "map_of ?fwd' = (map_of ?fwd)(IntKey ?d \<mapsto> txt)"
    by (rule update_conv')
  have fresh: "map_of ?fwd (IntKey ?d) = None"
    using df(2) by (auto simp: map_of_eq_None_iff)
  have upd: "distinct (map fst post') \<and> distinct (map fst dfs') \<and>
    (\<forall>t. map_of post' t =
       (if t \<in> set ?ts
        then Some (get_default ?post t [] @ [\<lparr>doc_id = ?d, tf = int (count_list ?ts t)\<rparr>])
        else map_of ?post t)) \<and>
    (\<forall>t. map_of dfs' t =
       (if t \<in> set ?ts then Some (get_default ?dfs t 0 + 1) else map_of ?dfs t))"
  proof (cases "?ts = []")
    case True
    with pd dp dd show ?thesis by auto
  next
    case False
    with pd have "add_counts ?d (Counter ?ts) (?post, ?dfs) = (post', dfs')" by simp
    from add_counts_Counter [OF dp dd this] show ?thesis .
  qed
  then have dp': "distinct (map fst post')" and dd': "distinct (map fst dfs')"
    and post': "\<And>t. map_of post' t =
       (if t \<in> set ?ts
        then Some (get_default ?post t [] @ [\<lparr>doc_id = ?d, tf = int (count_list ?ts t)\<rparr>])
        else map_of ?post t)"
    and dfs': "\<And>t. map_of dfs' t =
       (if t \<in> set ?ts then Some (get_default ?dfs t 0 + 1) else map_of ?dfs t)"
    by blast+
  have old_list: "plist = [] \<or> (plist \<noteq> [] \<and> map_of ?post t = Some plist)"
    if "plist = get_default ?post t []" for t plist
    using that by (auto simp: get_default_def split: option.splits)
  have old_ent: "sorted_wrt (<) (map doc_id plist) \<and>
      (\<forall>e\<in>set plist. doc_id e < ?d \<and> (\<exists>txt. map_of ?fwd' (IntKey (doc_id e)) = Some txt \<and>
           t \<in> set (preprocess txt) \<and> tf e = int (count_list (preprocess txt) t)))"
    if "plist = get_default ?post t []" for t plist
  proof -
    from old_list [OF that] show ?thesis
    proof
      assume "plist = []" then show ?thesis by simp
    next
      assume "plist \<noteq> [] \<and> map_of ?post t = Some plist"
      then have p: "map_of ?post t = Some plist" by simp
      from ent [OF p] have s: "sorted_wrt (<) (map doc_id plist)"
        and e: "\<forall>e\<in>set plist. \<exists>txt. map_of ?fwd (IntKey (doc_id e)) = Some txt \<and>
           t \<in> set (preprocess txt) \<and> tf e = int (count_list (preprocess txt) t)"
        by blast+
      have "doc_id e < ?d \<and> (\<exists>txt. map_of ?fwd' (IntKey (doc_id e)) = Some txt \<and>
           t \<in> set (preprocess txt) \<and> tf e = int (count_list (preprocess txt) t))"
        if "e \<in> set plist" for e
      proof -
        from e that obtain tx where tx: "map_of ?fwd (IntKey (doc_id e)) = Some tx"
          "t \<in> set (preprocess tx)" "tf e = int (count_list (preprocess tx) t)" by blast
        from build_inv_doc_id_range [OF inv tx(1)] have lt: "doc_id e < ?d" by simp
        then have "map_of ?fwd' (IntKey (doc_id e)) = Some tx"
          using tx(1) by (simp add: fwd')
        with tx lt show ?thesis by blast
      qed
      with s show ?thesis by blast
    qed
  qed
  have len': "map_of dfs' t = map_option (\<lambda>plist. int (length plist)) (map_of post' t)" for t
    using len [of t] by (simp add: post' dfs' get_default_def split: option.splits)
  have ent': "plist \<noteq> [] \<and> sorted_wrt (<) (map doc_id plist) \<and>
        (\<forall>e\<in>set plist. \<exists>txt. map_of ?fwd' (IntKey (doc_id e)) = Some txt \<and>
           t \<in> set (preprocess txt) \<and> tf e = int (count_list (preprocess txt) t))"
    if p: "map_of post' t = Some plist" for t plist
  proof (cases "t \<in> set ?ts")
    case True
    let ?old = "get_default ?post t []"
    from p True have pl: "plist = ?old @ [\<lparr>doc_id = ?d, tf = int (count_list ?ts t)\<rparr>]"
      by (simp add: post')
    from old_ent [OF refl, of t] have s: "sorted_wrt (<) (map doc_id ?old)"
      and e: "\<forall>e\<in>set ?old. doc_id e < ?d \<and> (\<exists>txt. map_of ?fwd' (IntKey (doc_id e)) = Some txt \<and>
           t \<in> set (preprocess txt) \<and> tf e = int (count_list (preprocess txt) t))"
      by blast+
    have "sorted_wrt (<) (map doc_id plist)"
      using s e by (auto simp: pl sorted_wrt_append)
    moreover have "map_of ?fwd' (IntKey ?d) = Some txt" by (simp add: fwd')
    then have "\<forall>e\<in>set plist. \<exists>txt. map_of ?fwd' (IntKey (doc_id e)) = Some txt \<and>
           t \<in> set (preprocess txt) \<and> tf e = int (count_list (preprocess txt) t)"
      using e True by (auto simp: pl)
    ultimately show ?thesis by (simp add: pl)
  next
    case False
    with p have p0: "map_of ?post t = Some plist" by (simp add: post')
    then have "plist = get_default ?post t []" by (simp add: get_default_def)
    from old_ent [OF this] ent [OF p0] show ?thesis by blast
  qed
  have cov': "d \<in> doc_id ` set (get_default post' t [])"
    if f: "map_of ?fwd' (IntKey d) = Some tx" and t: "t \<in> set (preprocess tx)" for d tx t
  proof (cases "d = ?d")
    case True
    with f have "tx = txt" by (simp add: fwd')
    with t have "t \<in> set ?ts" by simp
    then show ?thesis by (simp add: True get_default_def post')
  next
    case False
    with f have "map_of ?fwd (IntKey d) = Some tx" by (simp add: fwd')
    from cov [OF this t] have "d \<in> doc_id ` set (get_default ?post t [])" .
    then show ?thesis
      by (cases "t \<in> set ?ts") (auto simp: get_default_def post')
  qed
  have "distinct (map fst (AList.update (IntKey ?d) file_path (st_doc_id_map st)))"
    "distinct (map fst ?fwd')"
    using dm(1) df(1) by (simp_all add: distinct_update)
  moreover have "fst ` set (AList.update (IntKey ?d) file_path (st_doc_id_map st)) = IntKey ` {0..<?d + 1}"
    "fst ` set ?fwd' = IntKey ` {0..<?d + 1}"
    using dm(2) df(2) by (simp_all add: dom_update range)
  ultimately show ?thesis
    unfolding build_inv_def using d0 dp' dd' len' ent' cov'
    by simp
qed

lemma build_inv_step: "build_inv st \<Longrightarrow> build_inv (index_document f st)"
proof -
  assume inv: "build_inv st"
  obtain file_path extracted where f: "f = (file_path, extracted)" by (cases f)
  show ?thesis
  proof (cases extracted)
    case None
    with inv show ?thesis by (simp add: f index_document_def)
  next
    case (Some raw)
    show ?thesis
    proof (cases "strip raw = []")
      case True
      with inv Some show ?thesis by (simp add: f index_document_def)
    next
      case False
      obtain post' dfs' where pd:
        "(if preprocess (strip raw) \<noteq> []
          then add_counts (st_doc_id st) (Counter (preprocess (strip raw))) (st_postings st, st_df st)
          else (st_postings st, st_df st)) = (post', dfs')"
        by (cases "(if preprocess (strip raw) \<noteq> []
          then add_counts (st_doc_id st) (Counter (preprocess (strip raw))) (st_postings st, st_df st)
          else (st_postings st, st_df st))") 
      from build_inv_step_text [OF inv False pd, of file_path] Some False pd
      show ?thesis by (simp add: f index_document_def Let_def)
    qed
  qed
qed

lemma build_inv_fold: "build_inv st \<Longrightarrow> build_inv (fold index_document files st)"
  by (induction files arbitrary: st) (auto intro: build_inv_step)

subsection \<open>After the main loop\<close>

lemma sort_postings_id:
  "\<forall>(t, plist)\<in>set post. sorted_wrt (<) (map doc_id plist) \<Longrightarrow> sort_postings post = post"
  unfolding sort_postings_def
  by (rule map_idI) (auto simp: strict_sorted_iff intro: sort_key_id_if_sorted)

lemma length_doc_keys:
  assumes "distinct (map fst m)" and "fst ` set m = IntKey ` {0..<d}"
  shows "int (length m) = (if 0 \<le> d then d else 0)"
proof -
  have "length m = card (set (map fst m))"
    using assms(1) by (metis distinct_card length_map)
  also have "\<dots> = card (IntKey ` {0..<d})" using assms(2) by simp
  also have "\<dots> = card {0..<d}" by (rule card_image) (simp add: inj_on_def)
  finally show ?thesis by simp
qed

lemma length_sorted_ids:
  assumes "sorted_wrt (<) (map doc_id plist)" and "\<forall>e\<in>set plist. 0 \<le> doc_id e \<and> doc_id e < d"
    and "0 \<le> d"
  shows "int (length plist) \<le> d"
proof -
  have "distinct (map doc_id plist)" using assms(1) by (simp add: strict_sorted_iff)
  then have "length plist = card (set (map doc_id plist))"
    by (metis distinct_card length_map)
  also have "\<dots> \<le> card {0..<d}"
    using assms(2) by (intro card_mono) auto
  finally show ?thesis using assms(3) by simp
qed

lemma compute_idf_props:
  assumes "distinct (map fst dfs)" and "0 \<le> n" and "\<forall>(t, dfi)\<in>set dfs. 0 \<le> dfi"
  shows "\<exists>r. compute_idf n dfs acc = Inr r \<and>
    (\<forall>t. map_of r t =
       (case map_of dfs t of
          None \<Rightarrow> map_of acc t
        | Some dfi \<Rightarrow> Some (ln (real_of_int (n + 1) / real_of_int (dfi + 1)) + 1)))"
  using assms
proof (induction dfs arbitrary: acc)
  case Nil
  then show ?case by simp
next
  case (Cons a dfs)
  obtain k dfi where a: "a = (k, dfi)" by (cases a)
  from Cons.prems have dfi: "0 \<le> dfi" and k: "map_of dfs k = None"
    and d: "distinct (map fst dfs)" and rest: "\<forall>(t, dfi)\<in>set dfs. 0 \<le> dfi"
    by (auto simp: a map_of_eq_None_iff)
  have pos: "0 < real_of_int (n + 1) / real_of_int (dfi + 1)"
    using dfi Cons.prems(2) by simp
  let ?acc = "AList.update k (ln (real_of_int (n + 1) / real_of_int (dfi + 1)) + 1) acc"
  from Cons.IH [OF d Cons.prems(2) rest, of ?acc] obtain r where
    r: "compute_idf n dfs ?acc = Inr r" and
    m: "\<forall>t. map_of r t =
       (case map_of dfs t of
          None \<Rightarrow> map_of ?acc t
        | Some dfi \<Rightarrow> Some (ln (real_of_int (n + 1) / real_of_int (dfi + 1)) + 1))"
    by blast
  have "compute_idf n (a # dfs) acc = Inr r"
    using r pos dfi by (simp add: a math_log_def)
  moreover have "map_of r t =
       (case map_of (a # dfs) t of
          None \<Rightarrow> map_of acc t
        | Some dfi \<Rightarrow> Some (ln (real_of_int (n + 1) / real_of_int (dfi + 1)) + 1))" for t
    using m k by (auto simp: a update_conv' split: option.splits)
  ultimately show ?case by blast
qed

lemma norm_entries_props:
  assumes "\<forall>e\<in>set es. 1 \<le> tf e" and "w \<noteq> 0" and "distinct (map fst dn)"
    and "\<forall>k x. map_of dn k = Some x \<longrightarrow> 0 < x"
  shows "\<exists>dn'. norm_entries w es dn = Inr dn' \<and> distinct (map fst dn') \<and>
    fst ` set dn' = fst ` set dn \<union> (\<lambda>e. IntKey (doc_id e)) ` set es \<and>
    (\<forall>k x. map_of dn' k = Some x \<longrightarrow> 0 < x)"
  using assms
proof (induction es arbitrary: dn)
  case Nil
  then show ?case by simp
next
  case (Cons e es)
  let ?k = "IntKey (doc_id e)"
  let ?v = "get_default dn ?k 0 + ((1 + ln (real_of_int (tf e))) * w)\<^sup>2"
  let ?dn = "AList.update ?k ?v dn"
  from Cons.prems(1) have tf: "1 \<le> tf e" and rest: "\<forall>e\<in>set es. 1 \<le> tf e" by auto
  have "0 \<le> ln (real_of_int (tf e))" using tf by simp
  then have "(1 + ln (real_of_int (tf e))) * w \<noteq> 0" using Cons.prems(2) by simp
  then have sq: "0 < ((1 + ln (real_of_int (tf e))) * w)\<^sup>2" by simp
  have "0 \<le> get_default dn ?k 0"
    using Cons.prems(4) by (auto simp: get_default_def split: option.splits intro: less_imp_le)
  with sq have v: "0 < ?v" by linarith
  have d: "distinct (map fst ?dn)" using Cons.prems(3) by (simp add: distinct_update)
  have p: "\<forall>k x. map_of ?dn k = Some x \<longrightarrow> 0 < x"
    using Cons.prems(4) v by (simp add: update_conv')
  from Cons.IH [OF rest Cons.prems(2) d p] obtain dn' where
    r: "norm_entries w es ?dn = Inr dn'" and d': "distinct (map fst dn')"
    and k': "fst ` set dn' = fst ` set ?dn \<union> (\<lambda>e. IntKey (doc_id e)) ` set es"
    and p': "\<forall>k x. map_of dn' k = Some x \<longrightarrow> 0 < x"
    by blast
  have "norm_entries w (e # es) dn = Inr dn'"
    using r tf by (simp add: math_log_def Let_def)
  moreover have "fst ` set dn' = fst ` set dn \<union> (\<lambda>e. IntKey (doc_id e)) ` set (e # es)"
    by (simp add: k' dom_update)
  ultimately show ?case using d' p' by blast
qed

lemma norm_postings_props:
  assumes "\<forall>(t, plist)\<in>set post. (\<exists>w. map_of idfs t = Some w \<and> w \<noteq> 0) \<and> (\<forall>e\<in>set plist. 1 \<le> tf e)"
    and "distinct (map fst dn)" and "\<forall>k x. map_of dn k = Some x \<longrightarrow> 0 < x"
  shows "\<exists>dn'. norm_postings idfs post dn = Inr dn' \<and> distinct (map fst dn') \<and>
    fst ` set dn' = fst ` set dn \<union> (\<Union>(t, plist)\<in>set post. (\<lambda>e. IntKey (doc_id e)) ` set plist) \<and>
    (\<forall>k x. map_of dn' k = Some x \<longrightarrow> 0 < x)"
  using assms
proof (induction post arbitrary: dn)
  case Nil
  then show ?case by simp
next
  case (Cons a post)
  obtain t plist where a: "a = (t, plist)" by (cases a)
  from Cons.prems(1) have hd: "(\<exists>w. map_of idfs t = Some w \<and> w \<noteq> 0) \<and> (\<forall>e\<in>set plist. 1 \<le> tf e)"
    and rest: "\<forall>(t, plist)\<in>set post. (\<exists>w. map_of idfs t = Some w \<and> w \<noteq> 0) \<and> (\<forall>e\<in>set plist. 1 \<le> tf e)"
    by (simp_all add: a)
  from hd obtain w where w: "map_of idfs t = Some w" "w \<noteq> 0"
    and tf: "\<forall>e\<in>set plist. 1 \<le> tf e"
    by (elim conjE exE)
  from norm_entries_props [OF tf w(2) Cons.prems(2,3)] obtain dn1 where
    r1: "norm_entries w plist dn = Inr dn1" and d1: "distinct (map fst dn1)"
    and k1: "fst ` set dn1 = fst ` set dn \<union> (\<lambda>e. IntKey (doc_id e)) ` set plist"
    and p1: "\<forall>k x. map_of dn1 k = Some x \<longrightarrow> 0 < x"
    by (elim conjE exE)
  from Cons.IH [OF rest d1 p1] obtain dn' where
    r: "norm_postings idfs post dn1 = Inr dn'" and d': "distinct (map fst dn')"
    and k': "fst ` set dn' = fst ` set dn1 \<union> (\<Union>(t, plist)\<in>set post. (\<lambda>e. IntKey (doc_id e)) ` set plist)"
    and p': "\<forall>k x. map_of dn' k = Some x \<longrightarrow> 0 < x"
    by (elim conjE exE)
  have "norm_postings idfs (a # post) dn = Inr dn'"
    using r r1 w by (simp add: a)
  moreover have "fst ` set dn' =
      fst ` set dn \<union> (\<Union>(t, plist)\<in>set (a # post). (\<lambda>e. IntKey (doc_id e)) ` set plist)"
    unfolding k' k1 a by (simp add: Un_assoc)
  ultimately show ?case using d' p' by (intro exI conjI)
qed

lemma sqrt_norms_props:
  assumes "set ks \<subseteq> fst ` set dn" and "distinct (map fst dn)"
    and "\<forall>k x. map_of dn k = Some x \<longrightarrow> 0 < x"
  shows "\<exists>r. sqrt_norms ks dn = Inr r \<and> distinct (map fst r) \<and> fst ` set r = fst ` set dn \<and>
    (\<forall>k x. map_of r k = Some x \<longrightarrow> 0 < x)"
  using assms
proof (induction ks arbitrary: dn)
  case Nil
  then show ?case by simp
next
  case (Cons k ks)
  from Cons.prems(1) have "k \<in> fst ` set dn" by simp
  then obtain x where x: "map_of dn k = Some x"
    by (metis domD dom_map_of_conv_image_fst)
  with Cons.prems(3) have pos: "0 < x" by blast
  have g: "get_default dn k 0 = x" using x by (simp add: get_default_def)
  let ?dn = "AList.update k (sqrt x) dn"
  have dom: "fst ` set ?dn = fst ` set dn"
    using \<open>k \<in> fst ` set dn\<close> by (auto simp: dom_update)
  have "set ks \<subseteq> fst ` set ?dn" using Cons.prems(1) by (simp add: dom)
  moreover have "distinct (map fst ?dn)" using Cons.prems(2) by (simp add: distinct_update)
  moreover have "\<forall>k x. map_of ?dn k = Some x \<longrightarrow> 0 < x"
    using Cons.prems(3) pos by (simp add: update_conv')
  ultimately obtain r where "sqrt_norms ks ?dn = Inr r" "distinct (map fst r)"
    "fst ` set r = fst ` set ?dn" "\<forall>k x. map_of r k = Some x \<longrightarrow> 0 < x"
    using Cons.IH [of ?dn] by blast
  then show ?case using pos g dom by (simp add: math_sqrt_def)
qed

lemma idf_weight_ge_1:
  assumes "0 \<le> dfi" and "dfi \<le> n"
  shows "1 \<le> ln (real_of_int (n + 1) / real_of_int (dfi + 1)) + 1"
proof -
  have "1 \<le> real_of_int (n + 1) / real_of_int (dfi + 1)"
    using assms by (simp add: le_divide_eq)
  then have "0 \<le> ln (real_of_int (n + 1) / real_of_int (dfi + 1))"
    by (rule ln_ge_zero)
  then show ?thesis by simp
qed

lemma build_index_inv: "\<exists>idx. build_index files = Inr idx \<and> index_inv idx"
proof -
  define st where "st = fold index_document files init_state"
  let ?post = "st_postings st"
  let ?dfs = "st_df st"
  let ?fwd = "st_forward_index st"
  let ?n = "st_doc_id st"
  have inv: "build_inv st"
    unfolding st_def by (rule build_inv_fold [OF build_inv_init])
  then have n0: "0 \<le> ?n"
    and dm: "distinct (map fst (st_doc_id_map st))"
            "fst ` set (st_doc_id_map st) = IntKey ` {0..<?n}"
    and df: "distinct (map fst ?fwd)" "fst ` set ?fwd = IntKey ` {0..<?n}"
    and dp: "distinct (map fst ?post)" and dd: "distinct (map fst ?dfs)"
    and len: "\<forall>t. map_of ?dfs t = map_option (\<lambda>plist. int (length plist)) (map_of ?post t)"
    and ent: "\<forall>t plist. map_of ?post t = Some plist \<longrightarrow>
        plist \<noteq> [] \<and> sorted_wrt (<) (map doc_id plist) \<and>
        (\<forall>e\<in>set plist. \<exists>txt. map_of ?fwd (IntKey (doc_id e)) = Some txt \<and>
           t \<in> set (preprocess txt) \<and> tf e = int (count_list (preprocess txt) t))"
    and cov: "\<forall>d txt t. map_of ?fwd (IntKey d) = Some txt \<longrightarrow> t \<in> set (preprocess txt) \<longrightarrow>
        d \<in> doc_id ` set (get_default ?post t [])"
    unfolding build_inv_def by blast+
  have n: "int (length (st_doc_id_map st)) = ?n"
    using length_doc_keys [OF dm] n0 by simp
  have mem: "map_of ?post t = Some plist" if "(t, plist) \<in> set ?post" for t plist
    using that dp by simp
  have sorted: "sorted_wrt (<) (map doc_id plist)" if "(t, plist) \<in> set ?post" for t plist
    using ent mem [OF that] by blast
  have tf1: "1 \<le> tf e" if "(t, plist) \<in> set ?post" and "e \<in> set plist" for t plist e
  proof -
    from ent mem [OF that(1)] that(2) obtain tx where
      "t \<in> set (preprocess tx)" "tf e = int (count_list (preprocess tx) t)" by blast
    then show ?thesis using count_list_pos [of t "preprocess tx"] by simp
  qed
  have sp: "sort_postings ?post = ?post"
    by (rule sort_postings_id) (auto dest: sorted)
  have dfi: "0 \<le> dfi \<and> dfi \<le> ?n" if "map_of ?dfs t = Some dfi" for t dfi
  proof -
    from that len obtain plist where p: "map_of ?post t = Some plist"
      and l: "dfi = int (length plist)" by auto
    from ent p have s: "sorted_wrt (<) (map doc_id plist)"
      and e: "\<forall>e\<in>set plist. \<exists>txt. map_of ?fwd (IntKey (doc_id e)) = Some txt" by blast+
    have "\<forall>e\<in>set plist. 0 \<le> doc_id e \<and> doc_id e < ?n"
      using e build_inv_doc_id_range [OF inv] by blast
    from length_sorted_ids [OF s this n0] l show ?thesis by simp
  qed
  have "\<forall>(t, dfi)\<in>set ?dfs. 0 \<le> dfi"
    using dfi dd by auto
  from compute_idf_props [OF dd n0 this, of "[]"] obtain idfs where
    ci: "compute_idf ?n ?dfs [] = Inr idfs" and
    idfs0: "\<forall>t. map_of idfs t =
       (case map_of ?dfs t of
          None \<Rightarrow> map_of [] t
        | Some dfi \<Rightarrow> Some (ln (real_of_int (?n + 1) / real_of_int (dfi + 1)) + 1))"
    by (elim exE conjE)
  from idfs0 have idfs: "\<forall>t. map_of idfs t =
       (case map_of ?dfs t of
          None \<Rightarrow> None
        | Some dfi \<Rightarrow> Some (ln (real_of_int (?n + 1) / real_of_int (dfi + 1)) + 1))"
    by (simp cong: option.case_cong)
  have w: "(\<exists>w. map_of idfs t = Some w \<and> w \<noteq> 0) \<and> (\<forall>e\<in>set plist. 1 \<le> tf e)"
    if "(t, plist) \<in> set ?post" for t plist
  proof -
    from mem [OF that] len have d: "map_of ?dfs t = Some (int (length plist))" by simp
    from dfi [OF d] have "1 \<le> ln (real_of_int (?n + 1) / real_of_int (int (length plist) + 1)) + 1"
      by (intro idf_weight_ge_1) simp_all
    then have "ln (real_of_int (?n + 1) / real_of_int (int (length plist) + 1)) + 1 \<noteq> 0"
      by linarith
    moreover from idfs d have "map_of idfs t =
      Some (ln (real_of_int (?n + 1) / real_of_int (int (length plist) + 1)) + 1)" by simp
    ultimately show ?thesis using tf1 [OF that] by blast
  qed
  then have "\<forall>(t, plist)\<in>set ?post.
      (\<exists>w. map_of idfs t = Some w \<and> w \<noteq> 0) \<and> (\<forall>e\<in>set plist. 1 \<le> tf e)"
    by blast
  from norm_postings_props [OF this, of "[]"] obtain dn where
    np: "norm_postings idfs ?post [] = Inr dn" and ddn: "distinct (map fst dn)"
    and kdn0: "fst ` set dn =
      fst ` set [] \<union> (\<Union>(t, plist)\<in>set ?post. (\<lambda>e. IntKey (doc_id e)) ` set plist)"
    and pdn: "\<forall>k x. map_of dn k = Some x \<longrightarrow> 0 < x"
    by force
  from kdn0 have kdn:
    "fst ` set dn = (\<Union>(t, plist)\<in>set ?post. (\<lambda>e. IntKey (doc_id e)) ` set plist)"
    by simp
  have "set (map fst dn) \<subseteq> fst ` set dn" by simp
  from sqrt_norms_props [OF this ddn pdn] obtain norms where
    sn: "sqrt_norms (map fst dn) dn = Inr norms" and dno: "distinct (map fst norms)"
    and kno: "fst ` set norms = fst ` set dn"
    and pno: "\<forall>k x. map_of norms k = Some x \<longrightarrow> 0 < x"
    by (elim conjE exE)
  let ?idx = "\<lparr>doc_id_map = st_doc_id_map st, forward_index = ?fwd, postings = ?post,
    df = ?dfs, idf = idfs, N = ?n, doc_norm = norms\<rparr>"
  have b: "build_index files = Inr ?idx"
    using ci np sn by (simp add: build_index_def Let_def st_def [symmetric] sp n)
  have i: "\<forall>t dfi. map_of ?dfs t = Some dfi \<longrightarrow>
        dfi \<le> ?n \<and>
        map_of idfs t = Some (ln (real_of_int (?n + 1) / real_of_int (dfi + 1)) + 1)"
    using dfi idfs by simp
  have "index_inv ?idx"
    unfolding index_inv_def
    using n0 dm df dp dd len ent cov i dno pno by (simp add: kno kdn)
  with b show ?thesis by blast
qed

subsection \<open>Scores on a built index\<close>

lemma search_empty:
  assumes "preprocess q = [] \<or>
    (\<exists>t\<in>set (preprocess q). case map_of (postings idx) t of None \<Rightarrow> True | Some plist \<Rightarrow> plist = [])"
  shows "search q idx = Inr []"
proof (cases "preprocess q = []")
  case True
  then show ?thesis by (simp add: search_def)
next
  case False
  with assms have "collect_lists (postings idx) (preprocess q) = None"
    by (intro collect_lists_None) simp
  with False show ?thesis by (simp add: search_def)
qed

lemma unique_entry:
  assumes "distinct (map doc_id plist)" and "e \<in> set plist"
  shows "tf_dict plist (doc_id e) = Some (tf e) \<and>
    map_of (map (\<lambda>e. (doc_id e, tf e)) plist) (doc_id e) = Some (tf e)"
proof
  show "tf_dict plist (doc_id e) = Some (tf e)"
    using assms
  proof (induction plist rule: rev_induct)
    case Nil
    then show ?case by simp
  next
    case (snoc x xs)
    show ?case
    proof (cases "e \<in> set xs")
      case True
      with snoc.prems have "doc_id x \<noteq> doc_id e" by auto
      moreover from snoc.IH True snoc.prems have "tf_dict xs (doc_id e) = Some (tf e)" by auto
      ultimately show ?thesis by (simp add: tf_dict_snoc)
    next
      case False
      with snoc.prems have "e = x" by simp
      then show ?thesis by (simp add: tf_dict_snoc)
    qed
  qed
  have "distinct (map fst (map (\<lambda>e. (doc_id e, tf e)) plist))"
    using assms(1) by (simp add: comp_def)
  moreover have "(doc_id e, tf e) \<in> set (map (\<lambda>e. (doc_id e, tf e)) plist)"
    using assms(2) by auto
  ultimately show "map_of (map (\<lambda>e. (doc_id e, tf e)) plist) (doc_id e) = Some (tf e)"
    by (rule map_of_is_SomeI)
qed

lemma score_terms_sum:
  assumes "\<forall>t\<in>set ts. \<exists>m f. map_of tfm t = Some m \<and> m d = Some f \<and> 1 \<le> f \<and>
      (1 + ln (real_of_int f)) * get_default idfs t 0 = w t"
  shows "score_terms tfm idfs d ts s = Inr (s + sum_list (map w ts))"
  using assms
proof (induction ts arbitrary: s)
  case Nil
  then show ?case by simp
next
  case (Cons t ts)
  from Cons.prems obtain m f where m: "map_of tfm t = Some m" "m d = Some f" "1 \<le> f"
    "(1 + ln (real_of_int f)) * get_default idfs t 0 = w t" by auto
  from Cons.prems have "\<forall>t\<in>set ts. \<exists>m f. map_of tfm t = Some m \<and> m d = Some f \<and> 1 \<le> f \<and>
      (1 + ln (real_of_int f)) * get_default idfs t 0 = w t" by simp
  from Cons.IH [OF this] m show ?case
    by (simp add: math_log_def Let_def add.assoc)
qed

lemma index_invD:
  assumes "index_inv idx"
  shows "0 \<le> N idx"
    and "distinct (map fst (doc_id_map idx))"
    and "fst ` set (doc_id_map idx) = IntKey ` {0..<N idx}"
    and "distinct (map fst (forward_index idx))"
    and "fst ` set (forward_index idx) = IntKey ` {0..<N idx}"
    and "distinct (map fst (postings idx))"
    and "distinct (map fst (df idx))"
    and "\<forall>t. map_of (df idx) t = map_option (\<lambda>plist. int (length plist)) (map_of (postings idx) t)"
    and "\<forall>t plist. map_of (postings idx) t = Some plist \<longrightarrow>
        plist \<noteq> [] \<and> sorted_wrt (<) (map doc_id plist) \<and>
        (\<forall>e\<in>set plist. \<exists>txt. map_of (forward_index idx) (IntKey (doc_id e)) = Some txt \<and>
           t \<in> set (preprocess txt) \<and> tf e = int (count_list (preprocess txt) t))"
    and "\<forall>d txt t. map_of (forward_index idx) (IntKey d) = Some txt \<longrightarrow> t \<in> set (preprocess txt) \<longrightarrow>
        d \<in> doc_id ` set (get_default (postings idx) t [])"
    and "\<forall>t dfi. map_of (df idx) t = Some dfi \<longrightarrow>
        dfi \<le> N idx \<and>
        map_of (idf idx) t = Some (ln (real_of_int (N idx + 1) / real_of_int (dfi + 1)) + 1)"
    and "distinct (map fst (doc_norm idx))"
    and "fst ` set (doc_norm idx) =
       (\<Union>(t, plist)\<in>set (postings idx). (\<lambda>e. IntKey (doc_id e)) ` set plist)"
    and "\<forall>k x. map_of (doc_norm idx) k = Some x \<longrightarrow> 0 < x"
  using assms unfolding index_inv_def by - (elim conjE, assumption)+

lemma index_inv_postings:
  assumes "index_inv idx" and "map_of (postings idx) t = Some plist"
  shows "plist \<noteq> []" and "sorted_wrt (<) (map doc_id plist)"
    and "distinct (map doc_id plist)"
    and "\<forall>e\<in>set plist. \<exists>txt. map_of (forward_index idx) (IntKey (doc_id e)) = Some txt \<and>
           t \<in> set (preprocess txt) \<and> tf e = int (count_list (preprocess txt) t)"
    and "map_of (df idx) t = Some (int (length plist))"
proof -
  from index_invD(9) [OF assms(1), rule_format, OF assms(2)]
  show "plist \<noteq> []" and s: "sorted_wrt (<) (map doc_id plist)"
    and "\<forall>e\<in>set plist. \<exists>txt. map_of (forward_index idx) (IntKey (doc_id e)) = Some txt \<and>
           t \<in> set (preprocess txt) \<and> tf e = int (count_list (preprocess txt) t)"
    by - (elim conjE, assumption)+
  from s show "distinct (map doc_id plist)" by (simp add: strict_sorted_iff)
  from index_invD(8) [OF assms(1), rule_format, of t] assms(2)
  show "map_of (df idx) t = Some (int (length plist))" by simp
qed

lemma index_inv_entry:
  assumes inv: "index_inv idx" and p: "map_of (postings idx) t = Some plist"
    and d: "d \<in> doc_id ` set plist"
  shows "\<exists>f txt. tf_dict plist d = Some f \<and> term_frequency idx t d = f \<and> 1 \<le> f \<and>
     map_of (forward_index idx) (IntKey d) = Some txt \<and> f = int (count_list (preprocess txt) t)"
proof -
  from d obtain e where e: "e \<in> set plist" "doc_id e = d" by auto
  note ent = index_inv_postings(4) [OF inv p]
  from unique_entry [OF index_inv_postings(3) [OF inv p] e(1)] e(2)
  have u: "tf_dict plist d = Some (tf e)"
    "map_of (map (\<lambda>e. (doc_id e, tf e)) plist) d = Some (tf e)" by auto
  from ent e obtain tx where t: "map_of (forward_index idx) (IntKey d) = Some tx"
    "t \<in> set (preprocess tx)" "tf e = int (count_list (preprocess tx) t)" by blast
  have "1 \<le> tf e" using t(2,3) count_list_pos [of t "preprocess tx"] by simp
  moreover have "term_frequency idx t d = tf e"
    by (simp add: term_frequency_def p u(2) get_default_def)
  ultimately show ?thesis using u(1) t(1,3) by simp
qed

lemma index_inv_idf:
  assumes inv: "index_inv idx" and p: "map_of (postings idx) t = Some plist"
  shows "map_of (df idx) t = Some (int (length plist)) \<and>
     map_of (idf idx) t = Some (inverse_document_frequency idx t)"
proof -
  note d = index_inv_postings(5) [OF inv p]
  with index_invD(11) [OF inv] have "map_of (idf idx) t =
     Some (ln (real_of_int (N idx + 1) / real_of_int (int (length plist) + 1)) + 1)"
    by blast
  with d show ?thesis by (simp add: inverse_document_frequency_def get_default_def)
qed

lemma index_inv_norm:
  assumes inv: "index_inv idx" and p: "map_of (postings idx) t = Some plist"
    and d: "d \<in> doc_id ` set plist"
  shows "\<exists>x. map_of (doc_norm idx) (IntKey d) = Some x \<and> 0 < x"
proof -
  note k = index_invD(13) [OF inv] and pos = index_invD(14) [OF inv]
  from p have "(t, plist) \<in> set (postings idx)" by (rule map_of_SomeD)
  with d have "IntKey d \<in> fst ` set (doc_norm idx)" unfolding k by auto
  then obtain x where "map_of (doc_norm idx) (IntKey d) = Some x"
    by (metis domD dom_map_of_conv_image_fst)
  with pos show ?thesis by blast
qed

lemma score_doc_built:
  assumes inv: "index_inv idx"
    and post: "\<forall>t\<in>set ts. \<exists>plist. map_of (postings idx) t = Some plist \<and> d \<in> doc_id ` set plist"
    and ne: "ts \<noteq> []"
  shows "score_doc (map (\<lambda>t. (t, tf_dict (the (map_of (postings idx) t)))) (remdups ts))
           (idf idx) (doc_norm idx) (remdups ts) d = Inr (tfidf_score idx ts d)"
proof -
  let ?tfm = "map (\<lambda>t. (t, tf_dict (the (map_of (postings idx) t)))) (remdups ts)"
  let ?w = "\<lambda>t. (1 + ln (real_of_int (term_frequency idx t d))) * inverse_document_frequency idx t"
  have "\<exists>m f. map_of ?tfm t = Some m \<and> m d = Some f \<and> 1 \<le> f \<and>
      (1 + ln (real_of_int f)) * get_default (idf idx) t 0 = ?w t" if "t \<in> set (remdups ts)" for t
  proof -
    from that post obtain plist where p: "map_of (postings idx) t = Some plist"
      and d: "d \<in> doc_id ` set plist" by auto
    have m: "map_of ?tfm t = Some (tf_dict plist)"
      using that p by (simp add: map_of_map_restrict)
    from index_inv_entry [OF inv p d] obtain f where
      f: "tf_dict plist d = Some f" "term_frequency idx t d = f" "1 \<le> f" by blast
    from index_inv_idf [OF inv p]
    have "get_default (idf idx) t 0 = inverse_document_frequency idx t"
      by (simp add: get_default_def)
    with m f show ?thesis by simp
  qed
  then have "score_terms ?tfm (idf idx) d (remdups ts) 0 = Inr (0 + sum_list (map ?w (remdups ts)))"
    by (intro score_terms_sum) blast
  also have "sum_list (map ?w (remdups ts)) = (\<Sum>t\<in>set ts. ?w t)"
    using sum_list_distinct_conv_sum_set [of "remdups ts" ?w] by simp
  finally have st: "score_terms ?tfm (idf idx) d (remdups ts) 0 = Inr (\<Sum>t\<in>set ts. ?w t)"
    by simp
  from ne obtain t where "t \<in> set ts" by (cases ts) auto
  with post obtain plist where "map_of (postings idx) t = Some plist" "d \<in> doc_id ` set plist"
    by auto
  from index_inv_norm [OF inv this] obtain x where
    x: "map_of (doc_norm idx) (IntKey d) = Some x" "0 < x" by blast
  then have "norm_divisor idx d = x" "get_default (doc_norm idx) (IntKey d) 1 = x"
    by (simp_all add: norm_divisor_def get_default_def)
  with st x(2) show ?thesis
    by (simp add: score_doc_def tfidf_score_def Let_def)
qed

lemma search_built:
  assumes inv: "index_inv idx"
  shows "\<exists>res. search q idx = Inr res \<and>
     set (map fst res) =
       (if preprocess q = [] then {} else (\<Inter>t\<in>set (preprocess q). term_docs idx t)) \<and>
     distinct (map fst res) \<and>
     sorted_wrt ranked_before res \<and>
     (\<forall>(d, sc)\<in>set res. sc = tfidf_score idx (preprocess q) d)"
proof (cases "preprocess q = [] \<or>
    (\<exists>t\<in>set (preprocess q). case map_of (postings idx) t of None \<Rightarrow> True | Some plist \<Rightarrow> plist = [])")
  case True
  from search_empty [OF this] have s: "search q idx = Inr []" .
  have "(\<Inter>t\<in>set (preprocess q). term_docs idx t) = {}" if "preprocess q \<noteq> []"
  proof -
    from True that obtain t where t: "t \<in> set (preprocess q)"
      "case map_of (postings idx) t of None \<Rightarrow> True | Some plist \<Rightarrow> plist = []" by blast
    then have "term_docs idx t = {}" by (auto simp: term_docs_def split: option.splits)
    with t(1) show ?thesis by blast
  qed
  with s show ?thesis by auto
next
  case False
  then have ne: "preprocess q \<noteq> []"
    and all: "\<forall>t\<in>set (preprocess q). \<exists>plist. map_of (postings idx) t = Some plist \<and> plist \<noteq> []"
    by (auto split: option.splits)
  have tfs: "\<forall>t\<in>set (preprocess q). \<exists>plist. map_of (postings idx) t = Some plist \<and>
                 plist \<noteq> [] \<and> (\<forall>e\<in>set plist. 0 \<le> tf e)"
  proof
    fix t assume "t \<in> set (preprocess q)"
    with all obtain plist where p: "map_of (postings idx) t = Some plist" "plist \<noteq> []" by blast
    have "0 \<le> tf e" if "e \<in> set plist" for e
    proof -
      from that have "doc_id e \<in> doc_id ` set plist" by simp
      from index_inv_entry [OF inv p(1) this] obtain f where
        "tf_dict plist (doc_id e) = Some f" "1 \<le> f" by blast
      moreover from unique_entry [OF index_inv_postings(3) [OF inv p(1)] that] have "tf_dict plist (doc_id e) = Some (tf e)" by simp
      ultimately show ?thesis by simp
    qed
    with p show "\<exists>plist. map_of (postings idx) t = Some plist \<and>
                 plist \<noteq> [] \<and> (\<forall>e\<in>set plist. 0 \<le> tf e)" by blast
  qed
  from search_ranked [OF ne tfs] obtain res where
    r: "search q idx = Inr res"
    and s: "set (map fst res) = (\<Inter>t\<in>set (preprocess q). term_docs idx t)"
    and di: "distinct (map fst res)"
    and o: "sorted_wrt ranked_before res"
    and sc: "\<forall>(d, sc)\<in>set res.
              score_doc (map (\<lambda>t. (t, tf_dict (the (map_of (postings idx) t)))) (remdups (preprocess q)))
                (idf idx) (doc_norm idx) (remdups (preprocess q)) d = Inr sc"
    by blast
  have "sc' = tfidf_score idx (preprocess q) d" if m: "(d, sc') \<in> set res" for d sc'
  proof -
    from m have "d \<in> set (map fst res)" by force
    then have "\<forall>t\<in>set (preprocess q). d \<in> term_docs idx t" unfolding s by blast
    then have "\<forall>t\<in>set (preprocess q). \<exists>plist. map_of (postings idx) t = Some plist \<and>
        d \<in> doc_id ` set plist"
      by (auto simp: term_docs_def split: option.splits)
    from score_doc_built [OF inv this ne] sc m show ?thesis by auto
  qed
  with r s di o ne show ?thesis by auto
qed

subsection \<open>The example indexes\<close>

lemmas build_eval =
  build_index_def index_document_def init_state_def strip_def Counter_def get_default_def
  add_counts_def add_count_def Let_def sort_postings_def math_log_def math_sqrt_def

lemma build_example_files: "build_index example_files = Inr example_index"
proof -
  have "\<not> 3 * (ln (3 / 2) + 1)\<^sup>2 + 1 < (0::real)" "\<not> 2 * (ln (3 / 2) + 1)\<^sup>2 + 1 < (0::real)"
    by (simp_all add: not_less add_nonneg_nonneg)
  then show ?thesis
    by (simp add: example_files_def example_index_def build_eval preprocess_eval)
qed

lemma build_small_files: "build_index small_files = Inr small_index"
  by (simp add: small_files_def small_index_def build_eval preprocess_eval)

lemma build_stopword_files: "build_index stopword_files = Inr stopword_index"
  by (simp add: stopword_files_def stopword_index_def build_eval preprocess_eval)

section \<open>Claims about the index and the query engine\<close>

lemmas search_eval =
  search_def preprocess_eval and_intersect_def Let_def build_tf_map_def tf_dict_def
  score_doc_def get_default_def math_log_def

text \<open>
  Claim C1. When every term of the query has a non-empty postings list in the index,
  \<open>search\<close> returns a list of (document id, score) pairs whose document ids are
  exactly the intersection of the document ids of those postings lists, each once,
  ordered by descending score and, for equal scores, by ascending document id. This
  holds for any index whose recorded term frequencies are counts (not negative), and
  for every index \<open>build_index\<close> produces, there for every query.
\<close>

theorem search_intersection_ranked:
  "((\<forall>t\<in>set (preprocess q). \<exists>plist. map_of (postings idx) t = Some plist \<and>
        plist \<noteq> [] \<and> (\<forall>e\<in>set plist. 0 \<le> tf e))
    \<longrightarrow> (\<exists>res. search q idx = Inr res \<and>
           set (map fst res) = matching_docs idx (preprocess q) \<and>
           distinct (map fst res) \<and>
           sorted_wrt ranked_before res)) \<and>
   (\<exists>built. build_index files = Inr built \<and>
      (\<exists>res. search q built = Inr res \<and>
         set (map fst res) = matching_docs built (preprocess q) \<and>
         distinct (map fst res) \<and>
         sorted_wrt ranked_before res))"
proof (intro conjI impI)
  assume post: "\<forall>t\<in>set (preprocess q). \<exists>plist. map_of (postings idx) t = Some plist \<and>
        plist \<noteq> [] \<and> (\<forall>e\<in>set plist. 0 \<le> tf e)"
  show "\<exists>res. search q idx = Inr res \<and>
           set (map fst res) = matching_docs idx (preprocess q) \<and>
           distinct (map fst res) \<and>
           sorted_wrt ranked_before res"
  proof (cases "preprocess q = []")
    case True
    then have "search q idx = Inr []" by (simp add: search_def)
    with True show ?thesis by (simp add: matching_docs_def)
  next
    case False
    from search_ranked [OF False post] False show ?thesis
      by (auto simp: matching_docs_def)
  qed
next
  from build_index_inv obtain built where b: "build_index files = Inr built"
    and inv: "index_inv built" by blast
  from search_built [OF inv, of q] b
  show "\<exists>built. build_index files = Inr built \<and>
      (\<exists>res. search q built = Inr res \<and>
         set (map fst res) = matching_docs built (preprocess q) \<and>
         distinct (map fst res) \<and>
         sorted_wrt ranked_before res)"
    by (auto simp: matching_docs_def)
qed

theorem search_intersection_ranked_witness:
  "preprocess ''Search engines'' = [''search'', ''engines''] \<and>
   term_docs example_index ''search'' = {0, 1} \<and>
   term_docs example_index ''engines'' = {0} \<and>
   build_index example_files = Inr example_index \<and>
   (\<exists>res. search ''Search engines'' example_index = Inr res \<and>
      set (map fst res) = {0} \<and> distinct (map fst res) \<and> sorted_wrt ranked_before res)"
proof -
  have p: "preprocess ''Search engines'' = [''search'', ''engines'']"
    by (simp add: preprocess_eval)
  have h: "\<forall>t\<in>set (preprocess ''Search engines'').
      \<exists>plist. map_of (postings example_index) t = Some plist \<and>
           plist \<noteq> [] \<and> (\<forall>e\<in>set plist. 0 \<le> tf e)"
    by (simp add: p example_index_def)
  have t: "term_docs example_index ''search'' = {0, 1}" "term_docs example_index ''engines'' = {0}"
    by (auto simp: term_docs_def example_index_def)
  have m: "matching_docs example_index (preprocess ''Search engines'') = {0}"
    by (simp add: matching_docs_def p t)
  from search_intersection_ranked [of "''Search engines''" example_index example_files] h
  have "\<exists>res. search ''Search engines'' example_index = Inr res \<and>
           set (map fst res) = matching_docs example_index (preprocess ''Search engines'') \<and>
           distinct (map fst res) \<and>
           sorted_wrt ranked_before res"
    by blast
  with p t m build_example_files show ?thesis by simp
qed

text \<open>
  Claim C2. For every index \<open>build_index\<close> produces and every query, \<open>search\<close>
  returns, and the score of each returned document \<open>d\<close> is the sum over the distinct
  query terms \<open>t\<close> of \<open>(1 + ln (term frequency of t in d))\<close> times the inverse document
  frequency \<open>ln ((N + 1) / (df t + 1)) + 1\<close>, divided by the stored norm of \<open>d\<close> (by 1
  when that norm is zero or absent). The inverse document frequency is the value stored
  in the index at build time, and the term frequency is the number of occurrences of
  \<open>t\<close> among the tokens of the text of \<open>d\<close>.
\<close>

theorem search_score_formula:
  "\<exists>idx. build_index files = Inr idx \<and>
     (\<exists>res. search q idx = Inr res \<and>
        (\<forall>(d, sc)\<in>set res.
           sc = tfidf_score idx (preprocess q) d \<and>
           (\<forall>t\<in>set (preprocess q).
              map_of (idf idx) t = Some (inverse_document_frequency idx t) \<and>
              (\<exists>txt. map_of (forward_index idx) (IntKey d) = Some txt \<and>
                 term_frequency idx t d = int (count_list (preprocess txt) t)))))"
proof -
  from build_index_inv obtain idx where b: "build_index files = Inr idx" and inv: "index_inv idx"
    by blast
  from search_built [OF inv, of q] obtain res where r: "search q idx = Inr res"
    and s: "set (map fst res) =
       (if preprocess q = [] then {} else (\<Inter>t\<in>set (preprocess q). term_docs idx t))"
    and sc: "\<forall>(d, sc)\<in>set res. sc = tfidf_score idx (preprocess q) d"
    by blast
  have "map_of (idf idx) t = Some (inverse_document_frequency idx t) \<and>
      (\<exists>txt. map_of (forward_index idx) (IntKey d) = Some txt \<and>
         term_frequency idx t d = int (count_list (preprocess txt) t))"
    if m: "(d, x) \<in> set res" and t: "t \<in> set (preprocess q)" for d x t
  proof -
    from m have "d \<in> set (map fst res)" by force
    with s t have "d \<in> term_docs idx t" by (auto split: if_splits)
    then obtain plist where p: "map_of (postings idx) t = Some plist"
      and d: "d \<in> doc_id ` set plist"
      by (auto simp: term_docs_def split: option.splits)
    from index_inv_entry [OF inv p d] index_inv_idf [OF inv p] show ?thesis by auto
  qed
  with sc have "\<forall>(d, sc)\<in>set res.
           sc = tfidf_score idx (preprocess q) d \<and>
           (\<forall>t\<in>set (preprocess q).
              map_of (idf idx) t = Some (inverse_document_frequency idx t) \<and>
              (\<exists>txt. map_of (forward_index idx) (IntKey d) = Some txt \<and>
                 term_frequency idx t d = int (count_list (preprocess txt) t)))"
    by blast
  with b r show ?thesis by blast
qed

theorem search_score_formula_witness:
  "build_index example_files = Inr example_index \<and>
   search ''search engines'' example_index =
     Inr [(0, (2 + ln (3 / 2)) / sqrt (3 * (ln (3 / 2) + 1)\<^sup>2 + 1))] \<and>
   tfidf_score example_index (preprocess ''search engines'') 0 =
     (2 + ln (3 / 2)) / sqrt (3 * (ln (3 / 2) + 1)\<^sup>2 + 1)"
proof -
  have pos: "0 < 3 * (ln (3 / 2) + 1)\<^sup>2 + (1::real)"
    by (simp add: add_nonneg_pos)
  have s: "search ''search engines'' example_index =
     Inr [(0, (2 + ln (3 / 2)) / sqrt (3 * (ln (3 / 2) + 1)\<^sup>2 + 1))]"
    using pos by (simp add: search_eval example_index_def)
  from search_score_formula [of example_files "''search engines''"] build_example_files s
  show ?thesis by auto
qed

text \<open>
  Claim C3. For every index and every query, \<open>search\<close> returns the empty list, and
  raises nothing, when the query has no terms or some query term has no postings (no
  entry, or an empty list). This covers the index built from no valid document, whose
  tables are all empty.
\<close>

theorem search_empty_result:
  "((preprocess q = [] \<or>
     (\<exists>t\<in>set (preprocess q).
        case map_of (postings idx) t of None \<Rightarrow> True | Some plist \<Rightarrow> plist = []))
    \<longrightarrow> search q idx = Inr []) \<and>
   ((\<forall>(file_path, extracted)\<in>set files.
        case extracted of None \<Rightarrow> True | Some raw \<Rightarrow> strip raw = [])
    \<longrightarrow> (\<exists>idx0. build_index files = Inr idx0 \<and> N idx0 = 0 \<and> postings idx0 = [] \<and>
          search q' idx0 = Inr []))"
proof (intro conjI impI)
  assume "preprocess q = [] \<or>
     (\<exists>t\<in>set (preprocess q).
        case map_of (postings idx) t of None \<Rightarrow> True | Some plist \<Rightarrow> plist = [])"
  then show "search q idx = Inr []" by (rule search_empty)
next
  assume a: "\<forall>(file_path, extracted)\<in>set files.
        case extracted of None \<Rightarrow> True | Some raw \<Rightarrow> strip raw = []"
  have "fold index_document files st = st" for st
    using a by (induction files) (auto simp: index_document_def split: option.splits)
  then have b: "build_index files =
      Inr \<lparr>doc_id_map = [], forward_index = [], postings = [], df = [], idf = [], N = 0,
           doc_norm = []\<rparr>"
    by (simp add: build_index_def init_state_def sort_postings_def)
  have "search q' \<lparr>doc_id_map = [], forward_index = [], postings = [], df = [], idf = [],
      N = 0, doc_norm = []\<rparr> = Inr []"
    by (rule search_empty) (cases "preprocess q'", auto)
  with b show "\<exists>idx0. build_index files = Inr idx0 \<and> N idx0 = 0 \<and> postings idx0 = [] \<and>
          search q' idx0 = Inr []"
    by simp
qed

theorem search_empty_result_witness:
  "preprocess ''The of'' = [] \<and>
   search ''The of'' example_index = Inr [] \<and>
   preprocess ''nonexistent term xyz'' = [''nonexistent'', ''term'', ''xyz''] \<and>
   map_of (postings example_index) ''nonexistent'' = None \<and>
   search ''nonexistent term xyz'' example_index = Inr [] \<and>
   (\<exists>idx0. build_index [(''broken.pdf'', None), (''blank.docx'', Some ''  '')] = Inr idx0 \<and>
      N idx0 = 0 \<and> postings idx0 = [] \<and> search ''search'' idx0 = Inr [])"
proof -
  have p1: "preprocess ''The of'' = []"
    and p2: "preprocess ''nonexistent term xyz'' = [''nonexistent'', ''term'', ''xyz'']"
    by (simp_all add: preprocess_eval)
  have m: "map_of (postings example_index) ''nonexistent'' = None"
    by (simp add: example_index_def)
  have f: "\<forall>(file_path, extracted)\<in>set [(''broken.pdf'', None), (''blank.docx'', Some ''  '')].
        case extracted of None \<Rightarrow> True | Some raw \<Rightarrow> strip raw = []"
    by (simp add: strip_def isspace_def)
  from search_empty_result [of "''The of''" example_index "[]" "[]"] p1
  have s1: "search ''The of'' example_index = Inr []" by simp
  from search_empty_result [of "''nonexistent term xyz''" example_index
      "[(''broken.pdf'', None), (''blank.docx'', Some ''  '')]" "''search''"] p2 m f
  have "search ''nonexistent term xyz'' example_index = Inr [] \<and>
    (\<exists>idx0. build_index [(''broken.pdf'', None), (''blank.docx'', Some ''  '')] = Inr idx0 \<and>
      N idx0 = 0 \<and> postings idx0 = [] \<and> search ''search'' idx0 = Inr [])"
    by simp
  with p1 p2 m s1 show ?thesis by simp
qed

text \<open>
  Claim C8. For every index \<open>build_index\<close> produces, the terms of \<open>postings\<close> are
  pairwise distinct, and for every term the postings list is strictly ascending in the
  document id, holds at most one entry per document, and has the term's document
  frequency as its length.
\<close>

theorem postings_sorted_unique_df:
  "\<exists>idx. build_index files = Inr idx \<and>
     distinct (map fst (postings idx)) \<and>
     (\<forall>(t, plist)\<in>set (postings idx).
        sorted_wrt (<) (map doc_id plist) \<and>
        distinct (map doc_id plist) \<and>
        map_of (df idx) t = Some (int (length plist)))"
proof -
  from build_index_inv obtain idx where b: "build_index files = Inr idx" and inv: "index_inv idx"
    by blast
  note dp = index_invD(6) [OF inv]
  have "sorted_wrt (<) (map doc_id plist) \<and> distinct (map doc_id plist) \<and>
        map_of (df idx) t = Some (int (length plist))"
    if "(t, plist) \<in> set (postings idx)" for t plist
  proof -
    from that dp have "map_of (postings idx) t = Some plist" by simp
    from index_inv_postings(2,3,5) [OF inv this] show ?thesis by simp
  qed
  with b dp show ?thesis by blast
qed

theorem postings_sorted_unique_df_witness:
  "build_index example_files = Inr example_index \<and>
   (''search'', [\<lparr>doc_id = 0, tf = 1\<rparr>, \<lparr>doc_id = 1, tf = 1\<rparr>]) \<in> set (postings example_index) \<and>
   sorted_wrt (<) (map doc_id [\<lparr>doc_id = 0, tf = 1\<rparr>, \<lparr>doc_id = 1, tf = 1\<rparr>]) \<and>
   distinct (map doc_id [\<lparr>doc_id = 0, tf = 1\<rparr>, \<lparr>doc_id = 1, tf = 1\<rparr>]) \<and>
   map_of (df example_index) ''search'' = Some 2"
proof -
  have m: "(''search'', [\<lparr>doc_id = 0, tf = 1\<rparr>, \<lparr>doc_id = 1, tf = 1\<rparr>]) \<in> set (postings example_index)"
    by (simp add: example_index_def)
  from postings_sorted_unique_df [of example_files] build_example_files
  have "\<forall>(t, plist)\<in>set (postings example_index).
        sorted_wrt (<) (map doc_id plist) \<and>
        distinct (map doc_id plist) \<and>
        map_of (df example_index) t = Some (int (length plist))"
    by simp
  with m have "sorted_wrt (<) (map doc_id [\<lparr>doc_id = 0, tf = 1\<rparr>, \<lparr>doc_id = 1, tf = 1\<rparr>]) \<and>
   distinct (map doc_id [\<lparr>doc_id = 0, tf = 1\<rparr>, \<lparr>doc_id = 1, tf = 1\<rparr>]) \<and>
   map_of (df example_index) ''search'' = Some (int (length [\<lparr>doc_id = 0, tf = 1\<rparr>, \<lparr>doc_id = 1, tf = 1\<rparr>]))"
    by fast
  with m build_example_files show ?thesis by simp
qed

text \<open>
  Claim C7, as the code has it. For every index \<open>build_index\<close> produces, the assigned
  document ids are \<open>0, \<dots>, N - 1\<close>, and for each of them: \<open>doc_norm\<close> has an entry
  exactly when the text of the document has at least one indexed term, and that entry
  is positive. A document whose text is stop words and punctuation only has no entry in
  \<open>doc_norm\<close> (its norm is absent, not 0), and no stored norm is 0.
\<close>

theorem doc_norm_positive_iff_terms:
  "\<exists>idx. build_index files = Inr idx \<and>
     (\<forall>d\<in>{0..<N idx}.
        \<exists>txt. map_of (forward_index idx) (IntKey d) = Some txt \<and>
          (case map_of (doc_norm idx) (IntKey d) of
             None \<Rightarrow> preprocess txt = []
           | Some x \<Rightarrow> 0 < x \<and> preprocess txt \<noteq> []))"
proof -
  from build_index_inv obtain idx where b: "build_index files = Inr idx" and inv: "index_inv idx"
    by blast
  note keys = index_invD(13) [OF inv]
  have "\<exists>txt. map_of (forward_index idx) (IntKey d) = Some txt \<and>
          (case map_of (doc_norm idx) (IntKey d) of
             None \<Rightarrow> preprocess txt = []
           | Some x \<Rightarrow> 0 < x \<and> preprocess txt \<noteq> [])"
    if d: "d \<in> {0..<N idx}" for d
  proof -
    from d index_invD(5) [OF inv] have "IntKey d \<in> fst ` set (forward_index idx)" by simp
    then obtain tx where tx: "map_of (forward_index idx) (IntKey d) = Some tx"
      by (metis domD dom_map_of_conv_image_fst)
    show ?thesis
    proof (cases "map_of (doc_norm idx) (IntKey d)")
      case None
      have "preprocess tx = []"
      proof (rule ccontr)
        assume "preprocess tx \<noteq> []"
        then obtain t where t: "t \<in> set (preprocess tx)" by (cases "preprocess tx") auto
        from index_invD(10) [OF inv] tx t
        have m: "d \<in> doc_id ` set (get_default (postings idx) t [])" by blast
        then obtain plist where p: "map_of (postings idx) t = Some plist"
          and dm: "d \<in> doc_id ` set plist"
          by (cases "map_of (postings idx) t") (auto simp: get_default_def)
        from index_inv_norm [OF inv p dm] None show False by simp
      qed
      with tx None show ?thesis by simp
    next
      case (Some x)
      with index_invD(14) [OF inv] have pos: "0 < x" by blast
      from Some have "IntKey d \<in> fst ` set (doc_norm idx)"
        by (metis domI dom_map_of_conv_image_fst)
      with keys obtain t plist e where tp: "(t, plist) \<in> set (postings idx)"
        and e: "e \<in> set plist" "doc_id e = d" by auto
      from tp index_invD(6) [OF inv] have p: "map_of (postings idx) t = Some plist" by simp
      from index_inv_postings(4) [OF inv p] e tx have "t \<in> set (preprocess tx)" by auto
      then have "preprocess tx \<noteq> []" by auto
      with tx Some pos show ?thesis by simp
    qed
  qed
  with b show ?thesis by blast
qed

theorem doc_norm_positive_iff_terms_witness:
  "build_index example_files = Inr example_index \<and>
   (0::int) \<in> {0..<N example_index} \<and>
   map_of (forward_index example_index) (IntKey 0) = Some ''search engines index documents'' \<and>
   (\<exists>x. map_of (doc_norm example_index) (IntKey 0) = Some x \<and> 0 < x) \<and>
   preprocess ''search engines index documents'' \<noteq> []"
proof -
  have n: "(0::int) \<in> {0..<N example_index}" by (simp add: example_index_def)
  have f: "map_of (forward_index example_index) (IntKey 0) = Some ''search engines index documents''"
    by (simp add: example_index_def)
  have x: "\<exists>x. map_of (doc_norm example_index) (IntKey 0) = Some x"
    by (simp add: example_index_def)
  from doc_norm_positive_iff_terms [of example_files] build_example_files
  have "\<forall>d\<in>{0..<N example_index}.
        \<exists>txt. map_of (forward_index example_index) (IntKey d) = Some txt \<and>
          (case map_of (doc_norm example_index) (IntKey d) of
             None \<Rightarrow> preprocess txt = []
           | Some x \<Rightarrow> 0 < x \<and> preprocess txt \<noteq> [])"
    by simp
  with n have "\<exists>txt. map_of (forward_index example_index) (IntKey 0) = Some txt \<and>
          (case map_of (doc_norm example_index) (IntKey 0) of
             None \<Rightarrow> preprocess txt = []
           | Some x \<Rightarrow> 0 < x \<and> preprocess txt \<noteq> [])"
    by fast
  with f x have "(\<exists>x. map_of (doc_norm example_index) (IntKey 0) = Some x \<and> 0 < x) \<and>
     preprocess ''search engines index documents'' \<noteq> []"
    by auto
  with build_example_files n f show ?thesis by simp
qed

text \<open>
  Claim C7, as the specification states it, fails: the document \<^verbatim>\<open>"the"\<close> is assigned
  the id 0 and has no indexed term, and the index has no norm for it at all, where the
  claim has the norm 0.
\<close>

theorem doc_norm_zero_counterexample:
  "build_index stopword_files = Inr stopword_index \<and>
   map_of (doc_id_map stopword_index) (IntKey 0) = Some ''a.pdf'' \<and>
   map_of (forward_index stopword_index) (IntKey 0) = Some ''the'' \<and>
   preprocess ''the'' = [] \<and>
   map_of (doc_norm stopword_index) (IntKey 0) = None \<and>
   map_of (doc_norm stopword_index) (IntKey 0) \<noteq> Some 0"
  using build_stopword_files by (simp add: stopword_index_def preprocess_eval)

lemma map_of_StrKey_IntKey: "map_of (map (\<lambda>(k, v). (StrKey k, v)) xs) (IntKey d) = None"
  by (induction xs) auto

text \<open>
  Claim C4 fails on the code. The index built from the one document
  \<^verbatim>\<open>"search engines"\<close> scores it \<open>1 / sqrt 2\<close> for the query \<^verbatim>\<open>"search"\<close>; the index
  read back by \<open>load_index\<close> after \<open>save_index\<close> has the string \<^verbatim>\<open>"0"\<close> as the key of
  that document's norm, the lookup \<^verbatim>\<open>doc_norm.get(d, 1.0)\<close> with the integer 0 misses
  it, and the score is 1. In every index that is read back, no norm is found under an
  integer document id.
\<close>

theorem roundtrip_changes_scores:
  "build_index small_files = Inr small_index \<and>
   search ''search'' small_index = Inr [(0, 1 / sqrt 2)] \<and>
   load_index ''index.json'' (save_index small_index ''index.json'' Map.empty) =
     Inr loaded_small_index \<and>
   search ''search'' loaded_small_index = Inr [(0, 1)] \<and>
   1 / sqrt 2 \<noteq> (1::real) \<and>
   map_of (doc_norm (json_load (json_dump idx))) (IntKey d) = None"
proof -
  have "search ''search'' small_index = Inr [(0, 1 / sqrt 2)]"
    by (simp add: search_eval small_index_def)
  moreover have "load_index ''index.json'' (save_index small_index ''index.json'' Map.empty) =
     Inr loaded_small_index"
    by (simp add: load_index_def save_index_def json_load_def json_dump_def load_object_def
        small_index_def loaded_small_index_def json_key_def str_int_def str_nat.simps digit_char_def)
  moreover have "search ''search'' loaded_small_index = Inr [(0, 1)]"
    by (simp add: search_eval loaded_small_index_def)
  moreover have "1 / sqrt 2 \<noteq> (1::real)"
    by simp
  moreover have "map_of (doc_norm (json_load (json_dump idx))) (IntKey d) = None"
    by (simp add: json_load_def map_of_StrKey_IntKey)
  ultimately show ?thesis using build_small_files by simp
qed

section \<open>The LRU cache\<close>

subsection \<open>The doubly linked list\<close>

lemma in_set_tl: "a \<in> set (tl xs) \<Longrightarrow> a \<in> set xs"
  by (cases xs) auto

lemma linked_cong:
  assumes "\<forall>a\<in>set (butlast ns). nxt (h' a) = nxt (h a)"
    and "\<forall>a\<in>set (tl ns). prev (h' a) = prev (h a)"
  shows "linked h' ns = linked h ns"
  using assms by (induction h ns rule: linked.induct) auto

lemma linked_append: "linked h (xs @ y # ys) \<longleftrightarrow> linked h (xs @ [y]) \<and> linked h (y # ys)"
  by (induction h xs rule: linked.induct) auto

lemma linked_snoc2:
  "linked h (xs @ [a, b]) \<longleftrightarrow> linked h (xs @ [a]) \<and> nxt (h a) = Some b \<and> prev (h b) = Some a"
  using linked_append [of h xs a "[b]"] by auto

lemma lru_remove_heap:
  assumes "prev (heap c n) = Some p" and "nxt (heap c n) = Some x"
    and "p \<noteq> n" and "x \<noteq> n" and "p \<noteq> x"
  shows "lru_remove n c =
     c\<lparr>heap := (heap c)(p := (heap c p)\<lparr>nxt := Some x\<rparr>,
                         x := (heap c x)\<lparr>prev := Some p\<rparr>,
                         n := (heap c n)\<lparr>prev := None, nxt := None\<rparr>)\<rparr>"
  using assms by (simp add: lru_remove_def Let_def)

lemma lru_remove_linked:
  assumes d: "distinct (P @ n # X)" and l: "linked (heap c) (P @ n # X)"
    and P: "P \<noteq> []" and X: "X \<noteq> []"
  shows "\<exists>h'. lru_remove n c = c\<lparr>heap := h'\<rparr> \<and> linked h' (P @ X) \<and>
     (\<forall>a. key (h' a) = key (heap c a) \<and> val (h' a) = val (heap c a))"
proof -
  let ?h = "heap c"
  from P obtain P' p where P': "P = P' @ [p]" by (cases P rule: rev_cases) auto
  from X obtain x X' where X': "X = x # X'" by (cases X) auto
  from l have l1: "linked ?h (P' @ [p, n])" and l2: "linked ?h (n # x # X')"
    using linked_append [of ?h "P' @ [p]" n X] by (simp_all add: P' X')
  from l1 have lP: "linked ?h (P' @ [p])" and pn: "nxt (?h p) = Some n" "prev (?h n) = Some p"
    by (simp_all add: linked_snoc2)
  from l2 have nx: "nxt (?h n) = Some x" "prev (?h x) = Some n" and lX: "linked ?h (x # X')"
    by simp_all
  from d have ne: "p \<noteq> n" "x \<noteq> n" "p \<noteq> x"
    and nP: "n \<notin> set P'" "x \<notin> set P'" "p \<notin> set P'"
    and nX: "n \<notin> set X'" "x \<notin> set X'" "p \<notin> set X'"
    by (auto simp: P' X')
  let ?h' = "?h(p := (?h p)\<lparr>nxt := Some x\<rparr>, x := (?h x)\<lparr>prev := Some p\<rparr>,
                n := (?h n)\<lparr>prev := None, nxt := None\<rparr>)"
  have r: "lru_remove n c = c\<lparr>heap := ?h'\<rparr>"
    by (rule lru_remove_heap [OF pn(2) nx(1) ne])
  have "linked ?h' (P' @ [p]) = linked ?h (P' @ [p])"
    using ne nP by (intro linked_cong) (auto dest: in_set_tl)
  with lP have a: "linked ?h' (P' @ [p])" by simp
  have "linked ?h' (x # X') = linked ?h (x # X')"
    using ne nX by (intro linked_cong) (auto dest: in_set_butlastD)
  with lX have b: "linked ?h' (x # X')" by simp
  have "linked ?h' (P' @ [p, x])"
    using a ne by (simp add: linked_snoc2)
  with b have "linked ?h' (P @ X)"
    using linked_append [of ?h' "P' @ [p]" x X'] by (simp add: P' X')
  moreover have "\<forall>a. key (?h' a) = key (?h a) \<and> val (?h' a) = val (?h a)"
    by simp
  ultimately show ?thesis using r by blast
qed

lemma lru_insert_front_linked:
  assumes d: "distinct (head c # n # X)" and l: "linked (heap c) (head c # X)" and X: "X \<noteq> []"
  shows "\<exists>h'. lru_insert_front n c = Inr (c\<lparr>heap := h'\<rparr>) \<and> linked h' (head c # n # X) \<and>
     (\<forall>a. key (h' a) = key (heap c a) \<and> val (h' a) = val (heap c a))"
proof -
  let ?h = "heap c"
  let ?hd = "head c"
  from X obtain x X' where X': "X = x # X'" by (cases X) auto
  from l have hx: "nxt (?h ?hd) = Some x" "prev (?h x) = Some ?hd" and lX: "linked ?h (x # X')"
    by (simp_all add: X')
  from d have ne: "?hd \<noteq> n" "?hd \<noteq> x" "n \<noteq> x"
    and nX: "?hd \<notin> set X'" "n \<notin> set X'" "x \<notin> set X'"
    by (auto simp: X')
  let ?h' = "?h(n := (?h n)\<lparr>nxt := Some x, prev := Some ?hd\<rparr>,
                x := (?h x)\<lparr>prev := Some n\<rparr>,
                ?hd := (?h ?hd)\<lparr>nxt := Some n\<rparr>)"
  have r: "lru_insert_front n c = Inr (c\<lparr>heap := ?h'\<rparr>)"
    using hx ne by (simp add: lru_insert_front_def Let_def)
  have "linked ?h' (x # X') = linked ?h (x # X')"
    using ne nX by (intro linked_cong) (auto dest: in_set_butlastD)
  with lX have "linked ?h' (x # X')" by simp
  then have "linked ?h' (?hd # n # X)"
    using ne by (simp add: X')
  moreover have "\<forall>a. key (?h' a) = key (?h a) \<and> val (?h' a) = val (?h a)"
    by simp
  ultimately show ?thesis using r by blast
qed

subsection \<open>The representation invariant\<close>

lemma lru_structD:
  assumes "lru_struct c ns"
  shows "0 < capacity c"
    and "distinct (head c # ns @ [tail c])"
    and "linked (heap c) (head c # ns @ [tail c])"
    and "\<forall>a\<in>set (head c # ns @ [tail c]). a < next_addr c"
    and "distinct (map (\<lambda>a. key (heap c a)) ns)"
    and "set (map' c) = (\<lambda>a. (key (heap c a), a)) ` set ns"
    and "distinct (map fst (map' c))"
  using assms unfolding lru_struct_def by - (elim conjE, assumption)+

lemma lru_struct_length:
  assumes "lru_struct c ns"
  shows "length (map' c) = length ns"
proof -
  note s = lru_structD [OF assms]
  from s(7) have "distinct (map' c)" by (simp add: distinct_map)
  then have "length (map' c) = card (set (map' c))" by (simp add: distinct_card)
  also have "\<dots> = card ((\<lambda>a. (key (heap c a), a)) ` set ns)" by (simp only: s(6))
  also have "\<dots> = card (set ns)" by (rule card_image) (simp add: inj_on_def)
  also have "\<dots> = length ns" using s(2) by (simp add: distinct_card)
  finally show ?thesis .
qed

lemma lru_struct_keys:
  assumes "lru_struct c ns"
  shows "cache_keys c = set (map (\<lambda>a. key (heap c a)) ns)"
  unfolding cache_keys_def using lru_structD(6) [OF assms] by (simp add: image_image)

lemma walk_linked:
  "linked h (a # ns @ [t]) \<Longrightarrow> t \<notin> set ns \<Longrightarrow> length ns < fuel \<Longrightarrow>
   walk h t (nxt (h a)) fuel = ns"
proof (induction ns arbitrary: a fuel)
  case Nil
  then show ?case by (cases fuel) auto
next
  case (Cons b ns)
  from Cons.prems(3) obtain f where f: "fuel = Suc f" by (cases fuel) auto
  from Cons.prems(1) have "nxt (h a) = Some b" and l: "linked h (b # ns @ [t])" by simp_all
  moreover from Cons.IH [OF l, of f] Cons.prems have "walk h t (nxt (h b)) f = ns"
    by (simp add: f)
  ultimately show ?case using Cons.prems(2) by (simp add: f)
qed

lemma distinct_bounded_length:
  assumes "distinct (xs :: nat list)" and "\<forall>a\<in>set xs. a < n"
  shows "length xs \<le> n"
proof -
  have "length xs = card (set xs)" using assms(1) by (simp add: distinct_card)
  also have "\<dots> \<le> card {..<n}" using assms(2) by (intro card_mono) auto
  finally show ?thesis by simp
qed

lemma lru_struct_recency:
  assumes "lru_struct c ns"
  shows "recency_keys c = map (\<lambda>a. key (heap c a)) ns"
proof -
  note s = lru_structD [OF assms]
  from distinct_bounded_length [OF s(2) s(4)] have "length ns < next_addr c" by simp
  moreover from s(2) have "tail c \<notin> set ns" by auto
  ultimately have "walk (heap c) (tail c) (nxt (heap c (head c))) (next_addr c) = ns"
    using s(3) by (intro walk_linked) simp_all
  then show ?thesis by (simp add: recency_keys_def)
qed

lemma lru_struct_prev_tail:
  assumes "lru_struct c (ns @ [l])"
  shows "prev (heap c (tail c)) = Some l" and "l \<noteq> head c"
proof -
  note s = lru_structD [OF assms]
  from s(3) show "prev (heap c (tail c)) = Some l"
    using linked_snoc2 [of "heap c" "head c # ns" l "tail c"] by simp
  from s(2) show "l \<noteq> head c" by auto
qed

lemma lru_struct_lru_key:
  assumes "lru_struct c ns"
  shows "lru_key c = (if ns = [] then None else Some (key (heap c (last ns))))"
proof (cases ns rule: rev_cases)
  case Nil
  with lru_structD(3) [OF assms] show ?thesis by (simp add: lru_key_def)
next
  case (snoc bl l)
  with lru_struct_prev_tail [of c bl l] assms show ?thesis by (simp add: lru_key_def)
qed

lemma LRUCache_init_rep:
  assumes "0 < cap"
  shows "\<exists>c. LRUCache_init cap = Inr c \<and> lru_rep c [] \<and> capacity c = cap \<and>
     hits c = 0 \<and> misses c = 0"
  using assms by (simp add: LRUCache_init_def lru_rep_def lru_struct_def)

subsection \<open>\<^verbatim>\<open>put\<close> of a new key\<close>

lemma update_fresh: "map_of al k = None \<Longrightarrow> AList.update k v al = al @ [(k, v)]"
  by (induction al) auto

lemma lru_put_insert:
  assumes s: "lru_struct c ns" and new: "map_of (map' c) k = None"
    and heap2: "heap c2 = (heap c)(next_addr c := \<lparr>key = k, val = v, prev = None, nxt = None\<rparr>)"
    and next2: "next_addr c2 = Suc (next_addr c)"
    and map2: "map' c2 = AList.update k (next_addr c) (map' c)"
    and same2: "head c2 = head c" "tail c2 = tail c" "capacity c2 = capacity c"
      "hits c2 = hits c" "misses c2 = misses c"
  shows "\<exists>c3. lru_insert_front (next_addr c) c2 = Inr c3 \<and> lru_struct c3 (next_addr c # ns) \<and>
     capacity c3 = capacity c \<and> hits c3 = hits c \<and> misses c3 = misses c \<and>
     key (heap c3 (next_addr c)) = k \<and> val (heap c3 (next_addr c)) = v \<and>
     (\<forall>a\<in>set ns. key (heap c3 a) = key (heap c a))"
proof -
  let ?n = "next_addr c"
  let ?all = "head c # ns @ [tail c]"
  note d = lru_structD [OF s]
  from d(4) have fresh: "?n \<notin> set ?all" by auto
  have "linked (heap c2) ?all = linked (heap c) ?all"
    using fresh by (intro linked_cong) (auto simp: heap2 dest: in_set_butlastD in_set_tl)
  with d(3) have l2: "linked (heap c2) (head c2 # ns @ [tail c2])" by (simp add: same2)
  have d2: "distinct (head c2 # ?n # ns @ [tail c2])"
    using d(2) fresh by (simp add: same2)
  from lru_insert_front_linked [OF d2 l2] obtain h' where
    r: "lru_insert_front ?n c2 = Inr (c2\<lparr>heap := h'\<rparr>)"
    and l3: "linked h' (head c2 # ?n # ns @ [tail c2])"
    and kv: "\<forall>a. key (h' a) = key (heap c2 a) \<and> val (h' a) = val (heap c2 a)"
    by auto
  let ?c3 = "c2\<lparr>heap := h'\<rparr>"
  have key3: "key (h' a) = (if a = ?n then k else key (heap c a))" for a
    using kv by (simp add: heap2)
  have keys_ns: "key (h' a) = key (heap c a)" if "a \<in> set ns" for a
    using that fresh by (auto simp: key3)
  have kn: "key (h' ?n) = k" by (simp add: key3)
  have knew: "k \<notin> (\<lambda>a. key (heap c a)) ` set ns"
  proof
    assume "k \<in> (\<lambda>a. key (heap c a)) ` set ns"
    then obtain a where "a \<in> set ns" "key (heap c a) = k" by auto
    then have "(k, a) \<in> set (map' c)" using d(6) by auto
    with new show False by (simp add: map_of_eq_None_iff image_iff) force
  qed
  have m3: "map' ?c3 = map' c @ [(k, ?n)]"
    using new by (simp add: map2 update_fresh)
  have "lru_struct ?c3 (?n # ns)"
    unfolding lru_struct_def
  proof (intro conjI)
    show "0 < capacity ?c3" using d(1) by (simp add: same2)
    show "distinct (head ?c3 # (?n # ns) @ [tail ?c3])" using d2 by simp
    show "linked (heap ?c3) (head ?c3 # (?n # ns) @ [tail ?c3])" using l3 by simp
    show "\<forall>a\<in>set (head ?c3 # (?n # ns) @ [tail ?c3]). a < next_addr ?c3"
      using d(4) by (auto simp: same2 next2 less_Suc_eq)
    have m: "map (\<lambda>a. key (h' a)) ns = map (\<lambda>a. key (heap c a)) ns"
      using keys_ns by (intro map_cong) auto
    show "distinct (map (\<lambda>a. key (heap ?c3 a)) (?n # ns))"
      using d(5) knew by (simp add: kn m)
    have im: "(\<lambda>a. (key (h' a), a)) ` set ns = (\<lambda>a. (key (heap c a), a)) ` set ns"
      using keys_ns by (intro image_cong) auto
    show "set (map' ?c3) = (\<lambda>a. (key (heap ?c3 a), a)) ` set (?n # ns)"
      using d(6) by (simp add: m3 kn im)
    show "distinct (map fst (map' ?c3))"
      using d(7) by (simp add: map2 distinct_update)
  qed
  moreover have "val (heap ?c3 ?n) = v" using kv by (simp add: heap2)
  ultimately show ?thesis using r keys_ns kn by (auto simp: same2)
qed

lemma lru_evict_struct:
  assumes s: "lru_struct c (ns @ [l])"
  shows "lru_struct (lru_evict_lru c) ns \<and>
     (\<forall>a. key (heap (lru_evict_lru c) a) = key (heap c a)) \<and>
     capacity (lru_evict_lru c) = capacity c \<and> hits (lru_evict_lru c) = hits c \<and>
     misses (lru_evict_lru c) = misses c"
proof -
  note d = lru_structD [OF s]
  note pt = lru_struct_prev_tail [OF s]
  have dd: "distinct ((head c # ns) @ l # [tail c])" using d(2) by simp
  have ll: "linked (heap c) ((head c # ns) @ l # [tail c])" using d(3) by simp
  from lru_remove_linked [OF dd ll] obtain h' where
    r: "lru_remove l c = c\<lparr>heap := h'\<rparr>"
    and l': "linked h' ((head c # ns) @ [tail c])"
    and kv: "\<forall>a. key (h' a) = key (heap c a) \<and> val (h' a) = val (heap c a)"
    by auto
  let ?kl = "key (heap c l)"
  let ?c' = "c\<lparr>heap := h', map' := AList.delete ?kl (map' c)\<rparr>"
  have e: "lru_evict_lru c = ?c'"
    using pt r kv by (simp add: lru_evict_lru_def Let_def)
  have other: "key (heap c a) \<noteq> ?kl" if "a \<in> set ns" for a
    using d(5) that by (force simp: image_iff)
  have "lru_struct ?c' ns"
    unfolding lru_struct_def
  proof (intro conjI)
    show "0 < capacity ?c'" using d(1) by simp
    show "distinct (head ?c' # ns @ [tail ?c'])" using d(2) by simp
    show "linked (heap ?c') (head ?c' # ns @ [tail ?c'])" using l' by simp
    show "\<forall>a\<in>set (head ?c' # ns @ [tail ?c']). a < next_addr ?c'" using d(4) by simp
    show "distinct (map (\<lambda>a. key (heap ?c' a)) ns)" using d(5) kv by simp
    have "set (AList.delete ?kl (map' c)) = {p \<in> set (map' c). fst p \<noteq> ?kl}"
      by (auto simp: AList.delete_eq)
    also have "\<dots> = (\<lambda>a. (key (heap c a), a)) ` set ns"
      using other by (auto simp: d(6))
    finally show "set (map' ?c') = (\<lambda>a. (key (heap ?c' a), a)) ` set ns"
      using kv by simp
    show "distinct (map fst (map' ?c'))" using d(7) by (simp add: distinct_delete)
  qed
  then show ?thesis using kv by (simp add: e)
qed

lemma lru_put_new:
  assumes rep: "lru_rep c ns" and new: "map_of (map' c) k = None"
  shows "\<exists>c' ns'. lru_put k v c = Inr c' \<and> lru_rep c' ns' \<and>
     map (\<lambda>a. key (heap c' a)) ns' =
       take (nat (capacity c)) (k # map (\<lambda>a. key (heap c a)) ns) \<and>
     capacity c' = capacity c \<and> hits c' = hits c \<and> misses c' = misses c"
proof -
  let ?n = "next_addr c"
  define c2 where "c2 = (snd (new_node k v c))\<lparr>map' := AList.update k ?n (map' c)\<rparr>"
  from rep have s: "lru_struct c ns" and bound: "int (length ns) \<le> capacity c"
    by (simp_all add: lru_rep_def)
  have put: "lru_put k v c =
     (case lru_insert_front ?n c2 of
        Inl e \<Rightarrow> Inl e
      | Inr c3 \<Rightarrow> Inr (if int (length (map' c3)) > capacity c3 then lru_evict_lru c3 else c3))"
    using new by (simp add: lru_put_def new_node_def c2_def Let_def)
  from lru_put_insert [OF s new, of c2 v] obtain c3 where
    i: "lru_insert_front ?n c2 = Inr c3" and s3: "lru_struct c3 (?n # ns)"
    and f3: "capacity c3 = capacity c" "hits c3 = hits c" "misses c3 = misses c"
    and k3: "key (heap c3 ?n) = k" "\<forall>a\<in>set ns. key (heap c3 a) = key (heap c a)"
    by (auto simp: c2_def new_node_def)
  have keys3: "map (\<lambda>a. key (heap c3 a)) ns = map (\<lambda>a. key (heap c a)) ns"
    using k3(2) by (intro map_cong) auto
  have len3: "length (map' c3) = Suc (length ns)"
    using lru_struct_length [OF s3] by simp
  show ?thesis
  proof (cases "int (Suc (length ns)) > capacity c")
    case True
    with bound lru_structD(1) [OF s] have full: "int (length ns) = capacity c" and "ns \<noteq> []"
      by auto
    then obtain bl l where ns: "ns = bl @ [l]" by (cases ns rule: rev_cases) auto
    from s3 have "lru_struct c3 ((?n # bl) @ [l])" by (simp add: ns)
    from lru_evict_struct [OF this] have
      s': "lru_struct (lru_evict_lru c3) (?n # bl)"
      and k': "\<forall>a. key (heap (lru_evict_lru c3) a) = key (heap c3 a)"
      and f': "capacity (lru_evict_lru c3) = capacity c3" "hits (lru_evict_lru c3) = hits c3"
        "misses (lru_evict_lru c3) = misses c3"
      by simp_all
    have "lru_put k v c = Inr (lru_evict_lru c3)"
      using True by (simp add: put i len3 f3)
    moreover have "lru_rep (lru_evict_lru c3) (?n # bl)"
      using s' full by (simp add: lru_rep_def f' f3 ns)
    moreover have "map (\<lambda>a. key (heap (lru_evict_lru c3) a)) (?n # bl) =
       take (nat (capacity c)) (k # map (\<lambda>a. key (heap c a)) ns)"
    proof -
      have "nat (capacity c) = Suc (length bl)" using full by (simp add: ns)
      moreover have "map (\<lambda>a. key (heap c3 a)) bl = map (\<lambda>a. key (heap c a)) bl"
        using keys3 by (simp add: ns)
      ultimately show ?thesis using k' k3(1) by (simp add: ns)
    qed
    ultimately show ?thesis using f' f3 by auto
  next
    case False
    have "lru_put k v c = Inr c3"
      using False by (simp add: put i len3 f3)
    moreover have "lru_rep c3 (?n # ns)"
      using s3 False by (simp add: lru_rep_def f3)
    moreover have "map (\<lambda>a. key (heap c3 a)) (?n # ns) =
       take (nat (capacity c)) (k # map (\<lambda>a. key (heap c a)) ns)"
    proof -
      from False have "Suc (length ns) \<le> nat (capacity c)" by linarith
      then show ?thesis using k3(1) keys3 by simp
    qed
    ultimately show ?thesis using f3 by blast
  qed
qed

subsection \<open>Sequences of \<^verbatim>\<open>put\<close>\<close>

lemma puts_Inl: "puts (Inl e) kvs = Inl e"
  by (induction kvs) auto

lemma puts_snoc:
  "puts r (kvs @ [(k, v)]) = (case puts r kvs of Inl e \<Rightarrow> Inl e | Inr c \<Rightarrow> lru_put k v c)"
proof (induction kvs arbitrary: r)
  case Nil
  then show ?case by (cases r) auto
next
  case (Cons a kvs)
  obtain k' v' where a: "a = (k', v')" by (cases a)
  show ?case
  proof (cases r)
    case (Inl e)
    then show ?thesis by (simp add: a puts_Inl)
  next
    case (Inr c)
    then show ?thesis using Cons.IH [of "lru_put k' v' c"] by (simp add: a)
  qed
qed

lemma take_Cons_take: "take n (x # take n xs) = take n (x # xs)"
  by (cases n) auto

lemma puts_rep:
  assumes "0 < cap" and "distinct (map fst kvs)"
  shows "\<exists>c ns. puts (LRUCache_init cap) kvs = Inr c \<and> lru_rep c ns \<and>
     map (\<lambda>a. key (heap c a)) ns = take (nat cap) (rev (map fst kvs)) \<and> capacity c = cap"
  using assms(2)
proof (induction kvs rule: rev_induct)
  case Nil
  from LRUCache_init_rep [OF assms(1)] show ?case by auto
next
  case (snoc a kvs)
  obtain k v where a: "a = (k, v)" by (cases a)
  from snoc.prems have d: "distinct (map fst kvs)" and k: "k \<notin> set (map fst kvs)"
    by (simp_all add: a)
  from snoc.IH [OF d] obtain c ns where p: "puts (LRUCache_init cap) kvs = Inr c"
    and rep: "lru_rep c ns"
    and keys: "map (\<lambda>a. key (heap c a)) ns = take (nat cap) (rev (map fst kvs))"
    and cap: "capacity c = cap"
    by blast
  from rep have "lru_struct c ns" by (simp add: lru_rep_def)
  from lru_struct_keys [OF this] have "cache_keys c \<subseteq> set (map fst kvs)"
    by (simp only: keys) (auto dest: in_set_takeD)
  with k have "k \<notin> fst ` set (map' c)" by (auto simp: cache_keys_def)
  then have new: "map_of (map' c) k = None" by (simp add: map_of_eq_None_iff)
  from lru_put_new [OF rep new, of v] obtain c' ns' where
    "lru_put k v c = Inr c'" "lru_rep c' ns'"
    "map (\<lambda>a. key (heap c' a)) ns' = take (nat (capacity c)) (k # map (\<lambda>a. key (heap c a)) ns)"
    "capacity c' = capacity c"
    by blast
  then show ?case using p
    by (auto simp: a puts_snoc keys cap take_Cons_take)
qed

lemma puts_observed:
  assumes "0 < cap" and "distinct (map fst kvs)"
  shows "\<exists>c. puts (LRUCache_init cap) kvs = Inr c \<and>
     recency_keys c = take (nat cap) (rev (map fst kvs)) \<and>
     cache_keys c = set (take (nat cap) (rev (map fst kvs))) \<and>
     length (map' c) = min (nat cap) (length kvs) \<and>
     lru_key c = (if kvs = [] then None else Some (last (take (nat cap) (rev (map fst kvs)))))"
proof -
  from puts_rep [OF assms] obtain c ns where p: "puts (LRUCache_init cap) kvs = Inr c"
    and rep: "lru_rep c ns"
    and keys: "map (\<lambda>a. key (heap c a)) ns = take (nat cap) (rev (map fst kvs))"
    by blast
  from rep have s: "lru_struct c ns" by (simp add: lru_rep_def)
  have len: "length ns = min (nat cap) (length kvs)"
    using arg_cong [OF keys, of length] by simp
  have e: "ns = [] \<longleftrightarrow> kvs = []"
    using len assms(1) by (cases kvs) auto
  have "lru_key c = (if kvs = [] then None else Some (last (take (nat cap) (rev (map fst kvs)))))"
  proof (cases "ns = []")
    case True
    with e lru_struct_lru_key [OF s] show ?thesis by simp
  next
    case False
    then have "last (map (\<lambda>a. key (heap c a)) ns) = key (heap c (last ns))"
      by (simp add: last_map)
    with False e lru_struct_lru_key [OF s] show ?thesis by (simp add: keys)
  qed
  with p lru_struct_recency [OF s] lru_struct_keys [OF s] lru_struct_length [OF s] len
  show ?thesis by (simp add: keys)
qed

lemma recent_step:
  assumes "distinct ks" and "0 < c" and "c \<le> i" and "i < length ks"
  shows "last (take c (rev (take i ks))) = ks ! (i - c)"
    and "set (take c (rev (take (Suc i) ks))) =
           insert (ks ! i) (set (take c (rev (take i ks))) - {ks ! (i - c)})"
proof -
  let ?R = "rev (take i ks)"
  from assms obtain m where c: "c = Suc m" by (cases c) auto
  have lenR: "length ?R = i" using assms(4) by simp
  have dR: "distinct ?R" using assms(1) by (simp add: distinct_take)
  have Rm: "?R ! m = ks ! (i - c)"
    using assms(3,4) c by (simp add: rev_nth)
  have "take c ?R \<noteq> []" using assms(3) lenR c by (cases ?R) auto
  then have "last (take c ?R) = take c ?R ! (length (take c ?R) - 1)"
    by (rule last_conv_nth)
  also have "\<dots> = ?R ! m" using assms(3) lenR c by simp
  finally show "last (take c ?R) = ks ! (i - c)" by (simp only: Rm)
  have t: "take c ?R = take m ?R @ [?R ! m]"
    using assms(3) lenR c by (simp add: take_Suc_conv_app_nth)
  have "?R ! m \<notin> set (take m ?R)"
  proof
    assume "?R ! m \<in> set (take m ?R)"
    then obtain j where "j < m" "j < length ?R" "?R ! j = ?R ! m"
      by (auto simp: in_set_conv_nth)
    with dR assms(3) lenR c show False
      by (auto simp: distinct_conv_nth)
  qed
  then have "set (take m ?R) = set (take c ?R) - {?R ! m}"
    by (auto simp: t)
  moreover have "take c (rev (take (Suc i) ks)) = ks ! i # take m ?R"
    using assms(4) by (simp add: take_Suc_conv_app_nth c)
  ultimately show "set (take c (rev (take (Suc i) ks))) =
           insert (ks ! i) (set (take c ?R) - {ks ! (i - c)})"
    by (simp add: Rm)
qed

section \<open>Claims about the cache and the service\<close>

lemmas lru_eval =
  LRUCache_init_def lru_put_def lru_get_def lru_insert_front_def lru_remove_def
  lru_evict_lru_def new_node_def Let_def

text \<open>
  Claim C5. For every capacity \<open>c > 0\<close> and every \<open>k \<ge> 1\<close>, putting \<open>c + k\<close>
  pairwise distinct keys into a new cache of capacity \<open>c\<close> returns normally and leaves
  exactly the last \<open>c\<close> keys in the cache, most recent first in the recency list.
  Every \<open>put\<close> onto a full cache (the \<open>i\<close>-th with \<open>i \<ge> c\<close>) removes the key at the
  tail of the recency list, which is the key put \<open>c\<close> steps before, adds the new key,
  and changes nothing else.
\<close>

theorem lru_put_keeps_most_recent:
  assumes "0 < c" and "1 \<le> k" and "length kvs = nat c + k" and "distinct (map fst kvs)"
  shows "\<exists>final. puts (LRUCache_init c) kvs = Inr final \<and>
           cache_keys final = set (drop k (map fst kvs)) \<and>
           length (map' final) = nat c \<and>
           recency_keys final = rev (drop k (map fst kvs)) \<and>
           (\<forall>i. nat c \<le> i \<and> i < length kvs \<longrightarrow>
              (\<exists>before after.
                 puts (LRUCache_init c) (take i kvs) = Inr before \<and>
                 lru_put (fst (kvs ! i)) (snd (kvs ! i)) before = Inr after \<and>
                 length (map' before) = nat c \<and>
                 lru_key before = Some (fst (kvs ! (i - nat c))) \<and>
                 cache_keys after =
                   insert (fst (kvs ! i)) (cache_keys before - {fst (kvs ! (i - nat c))})))"
proof -
  let ?ks = "map fst kvs"
  let ?init = "LRUCache_init c :: py_error + 'a LRUCache"
  from puts_observed [OF assms(1,4)] obtain final where
    f: "puts ?init kvs = Inr final"
    "recency_keys final = take (nat c) (rev ?ks)"
    "cache_keys final = set (take (nat c) (rev ?ks))"
    "length (map' final) = min (nat c) (length kvs)"
    by blast
  have t: "take (nat c) (rev ?ks) = rev (drop k ?ks)"
    using assms(3) by (simp add: take_rev)
  have step: "\<exists>before after.
                 puts ?init (take i kvs) = Inr before \<and>
                 lru_put (fst (kvs ! i)) (snd (kvs ! i)) before = Inr after \<and>
                 length (map' before) = nat c \<and>
                 lru_key before = Some (fst (kvs ! (i - nat c))) \<and>
                 cache_keys after =
                   insert (fst (kvs ! i)) (cache_keys before - {fst (kvs ! (i - nat c))})"
    if i: "nat c \<le> i" "i < length kvs" for i
  proof -
    have c0: "0 < nat c" using assms(1) by simp
    have d1: "distinct (map fst (take i kvs))" and d2: "distinct (map fst (take (Suc i) kvs))"
      using assms(4) by (simp_all add: take_map [symmetric] distinct_take)
    have ne: "take i kvs \<noteq> []" using i c0 by auto
    from puts_observed [OF assms(1) d1] ne obtain before where
      b: "puts ?init (take i kvs) = Inr before"
      "cache_keys before = set (take (nat c) (rev (map fst (take i kvs))))"
      "length (map' before) = min (nat c) (length (take i kvs))"
      "lru_key before = Some (last (take (nat c) (rev (map fst (take i kvs)))))"
      by auto
    from puts_observed [OF assms(1) d2] obtain after where
      a: "puts ?init (take (Suc i) kvs) = Inr after"
      "cache_keys after = set (take (nat c) (rev (map fst (take (Suc i) kvs))))"
      by blast
    have "take (Suc i) kvs = take i kvs @ [(fst (kvs ! i), snd (kvs ! i))]"
      using i(2) by (simp add: take_Suc_conv_app_nth)
    then have "puts ?init (take (Suc i) kvs) = lru_put (fst (kvs ! i)) (snd (kvs ! i)) before"
      using b(1) by (simp only: puts_snoc) simp
    with a(1) have put: "lru_put (fst (kvs ! i)) (snd (kvs ! i)) before = Inr after" by simp
    have il: "i < length ?ks" using i(2) by simp
    note rs = recent_step [OF assms(4) c0 i(1) il]
    have n: "?ks ! i = fst (kvs ! i)" "?ks ! (i - nat c) = fst (kvs ! (i - nat c))"
      using i(2) by simp_all
    have "lru_key before = Some (fst (kvs ! (i - nat c)))"
      using b(4) rs(1) n by (simp add: take_map)
    moreover have "cache_keys after =
        insert (fst (kvs ! i)) (cache_keys before - {fst (kvs ! (i - nat c))})"
      using a(2) b(2) rs(2) n by (simp add: take_map)
    moreover have "length (map' before) = nat c" using b(3) i by simp
    ultimately show ?thesis using b(1) put by blast
  qed
  have len: "length (map' final) = nat c" using f(4) assms(3) by simp
  have ck: "cache_keys final = set (drop k ?ks)" using f(3) by (simp add: t)
  have rk: "recency_keys final = rev (drop k ?ks)" using f(2) by (simp add: t)
  have all: "\<forall>i. nat c \<le> i \<and> i < length kvs \<longrightarrow>
              (\<exists>before after.
                 puts ?init (take i kvs) = Inr before \<and>
                 lru_put (fst (kvs ! i)) (snd (kvs ! i)) before = Inr after \<and>
                 length (map' before) = nat c \<and>
                 lru_key before = Some (fst (kvs ! (i - nat c))) \<and>
                 cache_keys after =
                   insert (fst (kvs ! i)) (cache_keys before - {fst (kvs ! (i - nat c))}))"
  proof (intro allI impI)
    fix i assume "nat c \<le> i \<and> i < length kvs"
    then have "nat c \<le> i" "i < length kvs" by simp_all
    then show "\<exists>before after.
                 puts ?init (take i kvs) = Inr before \<and>
                 lru_put (fst (kvs ! i)) (snd (kvs ! i)) before = Inr after \<and>
                 length (map' before) = nat c \<and>
                 lru_key before = Some (fst (kvs ! (i - nat c))) \<and>
                 cache_keys after =
                   insert (fst (kvs ! i)) (cache_keys before - {fst (kvs ! (i - nat c))})"
      by (rule step)
  qed
  show ?thesis
    by (intro exI [of _ final] conjI f(1) ck len rk all)
qed

theorem lru_put_keeps_most_recent_witness:
  "\<exists>final. puts (LRUCache_init 2) [(''a'', Some (1::nat)), (''b'', Some 2), (''c'', Some 3)] = Inr final \<and>
     cache_keys final = {''b'', ''c''} \<and> length (map' final) = 2 \<and>
     recency_keys final = [''c'', ''b''] \<and>
     (\<exists>before after.
        puts (LRUCache_init 2) [(''a'', Some (1::nat)), (''b'', Some 2)] = Inr before \<and>
        lru_put ''c'' (Some 3) before = Inr after \<and>
        lru_key before = Some ''a'' \<and>
        cache_keys after = insert ''c'' (cache_keys before - {''a''}))"
proof -
  let ?kvs = "[(''a'', Some (1::nat)), (''b'', Some 2), (''c'', Some 3)]"
  let ?init = "LRUCache_init 2 :: py_error + nat LRUCache"
  have h: "(0::int) < 2" "(1::nat) \<le> 1" "length ?kvs = nat 2 + 1" "distinct (map fst ?kvs)"
    by simp_all
  from lru_put_keeps_most_recent [OF h] obtain final where
    f: "puts ?init ?kvs = Inr final"
    "cache_keys final = set (drop 1 (map fst ?kvs))"
    "length (map' final) = nat 2"
    "recency_keys final = rev (drop 1 (map fst ?kvs))"
    and s: "\<forall>i. nat 2 \<le> i \<and> i < length ?kvs \<longrightarrow>
              (\<exists>before after.
                 puts ?init (take i ?kvs) = Inr before \<and>
                 lru_put (fst (?kvs ! i)) (snd (?kvs ! i)) before = Inr after \<and>
                 length (map' before) = nat 2 \<and>
                 lru_key before = Some (fst (?kvs ! (i - nat 2))) \<and>
                 cache_keys after =
                   insert (fst (?kvs ! i)) (cache_keys before - {fst (?kvs ! (i - nat 2))}))"
    by (elim exE conjE)
  have i: "nat 2 \<le> (2::nat) \<and> (2::nat) < length ?kvs" by simp
  from s [rule_format, OF i] obtain before after where
    b: "puts ?init (take 2 ?kvs) = Inr before"
    "lru_put (fst (?kvs ! 2)) (snd (?kvs ! 2)) before = Inr after"
    "lru_key before = Some (fst (?kvs ! (2 - nat 2)))"
    "cache_keys after =
       insert (fst (?kvs ! 2)) (cache_keys before - {fst (?kvs ! (2 - nat 2))})"
    by (elim exE conjE)
  have e: "take 2 ?kvs = [(''a'', Some 1), (''b'', Some 2)]" "?kvs ! 2 = (''c'', Some 3)"
    "?kvs ! (2 - nat 2) = (''a'', Some 1)"
    by simp_all
  have b': "puts ?init [(''a'', Some 1), (''b'', Some 2)] = Inr before"
    "lru_put ''c'' (Some 3) before = Inr after"
    "lru_key before = Some ''a''"
    "cache_keys after = insert ''c'' (cache_keys before - {''a''})"
    using b unfolding e by simp_all
  have st: "\<exists>before after.
        puts ?init [(''a'', Some 1), (''b'', Some 2)] = Inr before \<and>
        lru_put ''c'' (Some 3) before = Inr after \<and>
        lru_key before = Some ''a'' \<and>
        cache_keys after = insert ''c'' (cache_keys before - {''a''})"
    by (intro exI [of _ before] exI [of _ after] conjI b')
  have ck: "cache_keys final = {''b'', ''c''}" using f(2) by auto
  have ln: "length (map' final) = 2" using f(3) by simp
  have rk: "recency_keys final = [''c'', ''b'']" using f(4) by simp
  show ?thesis
    by (intro exI [of _ final] conjI f(1) ck ln rk st)
qed

text \<open>
  Claim C9. Constructing an \<^verbatim>\<open>LRUCache\<close> with a capacity that is not positive raises
  \<^verbatim>\<open>ValueError\<close> and yields no cache, whatever the capacity; a
  \<^verbatim>\<open>SearchService\<close> given such a capacity does not construct a cache at all.
\<close>

theorem lru_cache_rejects_capacity:
  "cap \<le> 0 \<Longrightarrow>
     (LRUCache_init cap :: py_error + 'v LRUCache) = Inl ValueError \<and>
     (\<exists>svc. SearchService_init idx cap = Inr svc \<and> cache svc = None)"
  by (simp add: LRUCache_init_def SearchService_init_def)

theorem lru_cache_rejects_capacity_witness:
  "(0::int) \<le> 0 \<and> (LRUCache_init 0 :: py_error + nat LRUCache) = Inl ValueError \<and>
   (- 3::int) \<le> 0 \<and> (LRUCache_init (- 3) :: py_error + nat LRUCache) = Inl ValueError \<and>
   (\<exists>svc. SearchService_init example_index 0 = Inr svc \<and> cache svc = None)"
  using lru_cache_rejects_capacity [of 0 example_index, where 'v = nat]
    lru_cache_rejects_capacity [of "- 3" example_index, where 'v = nat]
  by simp

text \<open>
  Claim C6, as the code has it. A service constructed with a positive cache capacity is
  asked the same query twice. When the query engine finds at least one document, the
  first call is answered with \<^verbatim>\<open>cached = False\<close> and the second with
  \<^verbatim>\<open>cached = True\<close>, and the hit counter of the cache is 1 afterwards. When the
  query engine finds no document (also for a query without terms), nothing is stored:
  both calls are answered with \<^verbatim>\<open>cached = False\<close> and the hit counter stays 0.
\<close>

theorem search_twice_cached:
  assumes "0 < cap"
  shows "(search (strip q) idx = Inr res \<and> res \<noteq> []
            \<longrightarrow> search_twice idx cap q t1 t2 t3 t4 = Inr (False, True, Some 1)) \<and>
         (search (strip q) idx = Inr []
            \<longrightarrow> search_twice idx cap q t1 t2 t3 t4 = Inr (False, False, Some 0))"
proof (intro conjI impI)
  assume "search (strip q) idx = Inr res \<and> res \<noteq> []"
  then have res: "search (strip q) idx = Inr res" and ne: "res \<noteq> []" by simp_all
  have tokens: "preprocess (strip q) \<noteq> []"
  proof
    assume "preprocess (strip q) = []"
    then have "search (strip q) idx = Inr []" by (simp add: search_def)
    with res ne show False by simp
  qed
  then have q: "strip q \<noteq> []"
    by (auto simp: preprocess_def preprocess_with_def)
  have k: "normalize_key (strip q) \<noteq> []"
  proof
    assume "normalize_key (strip q) = []"
    then have "join '' '' (preprocess (strip q)) = []" by (simp add: normalize_key_def)
    moreover have "token_list (preprocess (strip q))"
      by (simp add: preprocess_def preprocess_with_token_list)
    ultimately have "preprocess (strip q) = []" by (rule join_eq_Nil [rotated])
    with tokens show False by simp
  qed
  show "search_twice idx cap q t1 t2 t3 t4 = Inr (False, True, Some 1)"
    using assms res ne q k
    by (simp add: search_twice_def SearchService_init_def SearchService_search_def
        respond_def lru_eval)
next
  assume empty: "search (strip q) idx = Inr []"
  show "search_twice idx cap q t1 t2 t3 t4 = Inr (False, False, Some 0)"
  proof (cases "strip q = [] \<or> normalize_key (strip q) = []")
    case True
    then show ?thesis
      using assms
      by (auto simp: search_twice_def SearchService_init_def SearchService_search_def
          respond_def LRUCache_init_def Let_def)
  next
    case False
    then show ?thesis
      using assms empty
      by (simp add: search_twice_def SearchService_init_def SearchService_search_def
          respond_def lru_eval)
  qed
qed

theorem search_twice_cached_witness:
  "(0::int) < 2 \<and>
   search (strip ''search engines'') example_index =
     Inr [(0, (2 + ln (3 / 2)) / sqrt (3 * (ln (3 / 2) + 1)\<^sup>2 + 1))] \<and>
   search_twice example_index 2 ''search engines'' 0 1 2 3 = Inr (False, True, Some 1) \<and>
   search (strip ''works engines'') example_index = Inr [] \<and>
   search_twice example_index 2 ''works engines'' 0 1 2 3 = Inr (False, False, Some 0)"
proof -
  have pos: "0 < 3 * (ln (3 / 2) + 1)\<^sup>2 + (1::real)"
    by (simp add: add_nonneg_pos)
  have st: "strip ''search engines'' = ''search engines''"
    "strip ''works engines'' = ''works engines''"
    by (simp_all add: strip_def isspace_def)
  have s: "search (strip ''search engines'') example_index =
     Inr [(0, (2 + ln (3 / 2)) / sqrt (3 * (ln (3 / 2) + 1)\<^sup>2 + 1))]"
    unfolding st using pos by (simp add: search_eval example_index_def)
  have e: "search (strip ''works engines'') example_index = Inr []"
    unfolding st by (simp add: search_eval example_index_def)
  have h: "(0::int) < 2" by simp
  from search_twice_cached [OF h, where q = "''search engines''" and idx = example_index
      and res = "[(0, (2 + ln (3 / 2)) / sqrt (3 * (ln (3 / 2) + 1)\<^sup>2 + 1))]"
      and ?t1.0 = 0 and ?t2.0 = 1 and ?t3.0 = 2 and ?t4.0 = 3] s
  have a: "search_twice example_index 2 ''search engines'' 0 1 2 3 = Inr (False, True, Some 1)"
    by simp
  from search_twice_cached [OF h, where q = "''works engines''" and idx = example_index
      and res = "[]" and ?t1.0 = 0 and ?t2.0 = 1 and ?t3.0 = 2 and ?t4.0 = 3] e
  have b: "search_twice example_index 2 ''works engines'' 0 1 2 3 = Inr (False, False, Some 0)"
    by simp
  from h s a e b show ?thesis by simp
qed

text \<open>
  Claim C6, as the specification states it, fails for a query without results: the
  empty result is not stored, so the second call is not answered from the cache and the
  hit counter stays 0.
\<close>

theorem search_twice_counterexample:
  "search_twice example_index 2 ''nonexistent term xyz'' 0 1 2 3 = Inr (False, False, Some 0)"
proof -
  have st: "strip ''nonexistent term xyz'' = ''nonexistent term xyz''"
    by (simp add: strip_def isspace_def)
  have p: "preprocess ''nonexistent term xyz'' = [''nonexistent'', ''term'', ''xyz'']"
    by (simp add: preprocess_eval)
  have s: "search ''nonexistent term xyz'' example_index = Inr []"
    by (rule search_empty) (simp add: p example_index_def)
  show ?thesis
    by (simp add: search_twice_def SearchService_init_def SearchService_search_def
        respond_def lru_eval st s normalize_key_def p)
qed


end
